theory Spec2Isabelle
  imports Main "HOL-Library.Word"
begin

section \<open>Alien Invaders: the frame simulation and compositing core of main.cpp\<close>

text \<open>
  The C++ program keeps all of its state in \<^verbatim>\<open>unsigned int\<close>, \<^verbatim>\<open>int\<close> and
  \<^verbatim>\<open>uint8_t\<close> variables.  They are modelled as 32-bit and 8-bit words, so that every
  addition and subtraction wraps around exactly as the machine arithmetic does.  A signed
  \<^verbatim>\<open>int\<close> is a 32-bit word read through \<open>sint\<close> where the program compares it as a signed
  number.  The fields of the structs carry a short prefix (\<open>b_\<close> for Buffer, \<open>s_\<close> for Sprite,
  \<open>a_\<close> for Alien, \<open>p_\<close> for Player, \<open>r_\<close> for Rocket), because several structs
  use the same field names.
\<close>

type_synonym u8 = "8 word"
type_synonym u32 = "32 word"
type_synonym i32 = "32 word"

subsection \<open>Data model\<close>

record Buffer =
  b_width :: u32
  b_height :: u32
  b_data :: "u32 list"

record Sprite =
  s_width :: u32
  s_height :: u32
  s_data :: "u8 list"

definition ALIEN_DEAD :: u8 where "ALIEN_DEAD = 0"
definition ALIEN_TYPE_A :: u8 where "ALIEN_TYPE_A = 1"
definition ALIEN_TYPE_B :: u8 where "ALIEN_TYPE_B = 2"

record Alien =
  a_x :: u32
  a_y :: u32
  a_type :: u8

record Player =
  p_x :: u32
  p_y :: u32
  lives :: u32

record Rocket =
  r_x :: u32
  r_y :: u32
  dir :: i32

definition GAME_MAX_ROCKETS :: nat where "GAME_MAX_ROCKETS = 128"

subsection \<open>The sprites of the game (compile-time bitmaps)\<close>

definition alien_sprite_0 :: Sprite where
  "alien_sprite_0 = \<lparr>s_width = 11, s_height = 8, s_data =
     [0, 0, 1, 0, 0, 0, 0, 0, 1, 0, 0,
      0, 0, 0, 1, 0, 0, 0, 1, 0, 0, 0,
      0, 0, 1, 1, 1, 1, 1, 1, 1, 0, 0,
      0, 1, 1, 0, 1, 1, 1, 0, 1, 1, 0,
      1, 1, 1, 1, 1, 1, 1, 1, 1, 1, 1,
      1, 0, 1, 1, 1, 1, 1, 1, 1, 0, 1,
      1, 0, 1, 0, 0, 0, 0, 0, 1, 0, 1,
      0, 0, 0, 1, 1, 0, 1, 1, 0, 0, 0]\<rparr>"

definition alien_sprite_1 :: Sprite where
  "alien_sprite_1 = \<lparr>s_width = 11, s_height = 8, s_data =
     [0, 0, 1, 0, 0, 0, 0, 0, 1, 0, 0,
      1, 0, 0, 1, 0, 0, 0, 1, 0, 0, 1,
      1, 0, 1, 1, 1, 1, 1, 1, 1, 0, 1,
      1, 1, 1, 0, 1, 1, 1, 0, 1, 1, 1,
      1, 1, 1, 1, 1, 1, 1, 1, 1, 1, 1,
      0, 0, 1, 1, 1, 1, 1, 1, 1, 0, 0,
      0, 0, 1, 0, 0, 0, 0, 0, 1, 0, 0,
      0, 1, 0, 0, 0, 0, 0, 0, 0, 1, 0]\<rparr>"

definition alien_sprite_2 :: Sprite where
  "alien_sprite_2 = \<lparr>s_width = 8, s_height = 8, s_data =
     [0, 0, 0, 1, 1, 0, 0, 0,
      0, 0, 1, 1, 1, 1, 0, 0,
      0, 1, 1, 1, 1, 1, 1, 0,
      1, 1, 0, 1, 1, 0, 1, 1,
      1, 1, 1, 1, 1, 1, 1, 1,
      0, 1, 0, 1, 1, 0, 1, 0,
      1, 0, 0, 0, 0, 0, 0, 1,
      0, 1, 0, 0, 0, 0, 1, 0]\<rparr>"

definition alien_sprite_3 :: Sprite where
  "alien_sprite_3 = \<lparr>s_width = 8, s_height = 8, s_data =
     [0, 0, 0, 1, 1, 0, 0, 0,
      0, 0, 1, 1, 1, 1, 0, 0,
      0, 1, 1, 1, 1, 1, 1, 0,
      1, 1, 0, 1, 1, 0, 1, 1,
      1, 1, 1, 1, 1, 1, 1, 1,
      0, 0, 1, 0, 0, 1, 0, 0,
      0, 1, 0, 1, 1, 0, 1, 0,
      1, 0, 1, 0, 0, 1, 0, 1]\<rparr>"

definition alien_death_sprite :: Sprite where
  "alien_death_sprite = \<lparr>s_width = 13, s_height = 7, s_data =
     [0, 1, 0, 0, 1, 0, 0, 0, 1, 0, 0, 1, 0,
      0, 0, 1, 0, 0, 1, 0, 1, 0, 0, 1, 0, 0,
      0, 0, 0, 1, 0, 0, 0, 0, 0, 1, 0, 0, 0,
      1, 1, 0, 0, 0, 0, 0, 0, 0, 0, 0, 1, 1,
      0, 0, 0, 1, 0, 0, 0, 0, 0, 1, 0, 0, 0,
      0, 0, 1, 0, 0, 1, 0, 1, 0, 0, 1, 0, 0,
      0, 1, 0, 0, 1, 0, 0, 0, 1, 0, 0, 1, 0]\<rparr>"

definition playerSprite :: Sprite where
  "playerSprite = \<lparr>s_width = 10, s_height = 10, s_data =
     [0, 0, 1, 0, 0, 0, 0, 1, 0, 0,
      0, 0, 1, 0, 0, 0, 0, 1, 0, 0,
      0, 1, 1, 1, 0, 0, 1, 1, 1, 0,
      0, 1, 1, 1, 0, 0, 1, 1, 1, 0,
      0, 1, 1, 1, 0, 0, 1, 1, 1, 0,
      0, 1, 1, 1, 1, 1, 1, 1, 1, 0,
      0, 1, 1, 1, 1, 1, 1, 1, 1, 0,
      0, 1, 1, 1, 1, 1, 1, 1, 1, 0,
      0, 1, 1, 1, 1, 1, 1, 1, 1, 0,
      1, 1, 1, 1, 1, 1, 1, 1, 1, 1]\<rparr>"

definition rocket_sprite :: Sprite where
  "rocket_sprite = \<lparr>s_width = 2, s_height = 5, s_data =
     [1, 1,
      1, 1,
      1, 1,
      1, 1,
      1, 1]\<rparr>"

subsection \<open>Bounding-box collision test\<close>

text \<open>\<^verbatim>\<open>sprite_overlap_check\<close>: four strict comparisons on unsigned 32-bit sums.\<close>

definition sprite_overlap_check ::
  "Sprite \<Rightarrow> u32 \<Rightarrow> u32 \<Rightarrow> Sprite \<Rightarrow> u32 \<Rightarrow> u32 \<Rightarrow> bool" where
  "sprite_overlap_check sp_a x_a y_a sp_b x_b y_b =
     (if x_a < x_b + s_width sp_b \<and> x_a + s_width sp_a > x_b \<and>
         y_a < y_b + s_height sp_b \<and> y_a + s_height sp_a > y_b
      then True else False)"

text \<open>
  The pixels a sprite's bounding box covers, as mathematical (unbounded) coordinates:
  columns \<open>x \<le> px < x + width\<close> and rows \<open>y \<le> py < y + height\<close>.  Two boxes share a
  pixel iff their column intervals and their row intervals both intersect.
\<close>

definition boxes_share_pixel ::
  "Sprite \<Rightarrow> u32 \<Rightarrow> u32 \<Rightarrow> Sprite \<Rightarrow> u32 \<Rightarrow> u32 \<Rightarrow> bool" where
  "boxes_share_pixel sp_a x_a y_a sp_b x_b y_b =
     (max (unat x_a) (unat x_b)
        < min (unat x_a + unat (s_width sp_a)) (unat x_b + unat (s_width sp_b)) \<and>
      max (unat y_a) (unat y_b)
        < min (unat y_a + unat (s_height sp_a)) (unat y_b + unat (s_height sp_b)))"

definition box_no_overflow :: "Sprite \<Rightarrow> u32 \<Rightarrow> u32 \<Rightarrow> bool" where
  "box_no_overflow sp x y =
     (unat x + unat (s_width sp) < 2 ^ 32 \<and> unat y + unat (s_height sp) < 2 ^ 32)"

definition square2 :: Sprite where
  "square2 = \<lparr>s_width = 2, s_height = 2, s_data = [1, 1, 1, 1]\<rparr>"


subsection \<open>Blitting a sprite into the pixel buffer\<close>

text \<open>
  Every array access of the program is checked in the model: an access outside the
  allocation, a division by zero and the like are undefined behaviour in C++ and end the
  run with \<open>UB\<close>.  \<open>Win\<close> and \<open>Loss\<close> are the two \<^verbatim>\<open>return 0\<close> of the game loop.
\<close>

datatype ending = Win | Loss | UB

text \<open>\<^verbatim>\<open>rgb_to_uint32\<close>.\<close>

definition rgb_to_uint32 :: "u8 \<Rightarrow> u8 \<Rightarrow> u8 \<Rightarrow> u32" where
  "rgb_to_uint32 r g b =
     or (or (or (push_bit 24 (ucast r)) (push_bit 16 (ucast g))) (push_bit 8 (ucast b))) 225"

text \<open>\<^verbatim>\<open>clear_buffer\<close>: the loop counter runs below \<open>width * height\<close> (a 32-bit product).\<close>

fun clear_cells :: "u32 \<Rightarrow> nat list \<Rightarrow> u32 list \<Rightarrow> ending + u32 list" where
  "clear_cells color [] d = Inr d"
| "clear_cells color (i # is) d =
     (if i < length d then clear_cells color is (d[i := color]) else Inl UB)"

definition clear_buffer :: "Buffer \<Rightarrow> u32 \<Rightarrow> ending + Buffer" where
  "clear_buffer buffer color =
     (case clear_cells color [0..<unat (b_width buffer * b_height buffer)] (b_data buffer) of
        Inl e \<Rightarrow> Inl e
      | Inr d \<Rightarrow> Inr (buffer\<lparr>b_data := d\<rparr>))"

text \<open>
  The body of the two loops of \<^verbatim>\<open>DrawSprite\<close>, for column \<open>i\<close> and row \<open>j\<close> of the sprite.
\<close>

definition draw_pixel ::
  "Sprite \<Rightarrow> u32 \<Rightarrow> u32 \<Rightarrow> u32 \<Rightarrow> u32 \<Rightarrow> u32 \<Rightarrow> Buffer \<Rightarrow> ending + Buffer" where
  "draw_pixel sprite x y color i j buffer =
     (let yPos = s_height sprite - 1 + y - j;
          xPos = x + i;
          k = unat (j * s_width sprite + i)
      in if length (s_data sprite) \<le> k then Inl UB
         else if s_data sprite ! k \<noteq> 0 \<and> yPos < b_height buffer \<and> xPos < b_width buffer
         then (let p = unat (yPos * b_width buffer + xPos)
               in if length (b_data buffer) \<le> p then Inl UB
                  else Inr (buffer\<lparr>b_data := (b_data buffer)[p := color]\<rparr>))
         else Inr buffer)"

function draw_column ::
  "Sprite \<Rightarrow> u32 \<Rightarrow> u32 \<Rightarrow> u32 \<Rightarrow> u32 \<Rightarrow> u32 \<Rightarrow> Buffer \<Rightarrow> ending + Buffer" where
  "draw_column sprite x y color i j buffer =
     (if j < s_height sprite
      then (case draw_pixel sprite x y color i j buffer of
              Inl e \<Rightarrow> Inl e
            | Inr b \<Rightarrow> draw_column sprite x y color i (j + 1) b)
      else Inr buffer)"
  by pat_completeness auto
termination
proof (relation "measure (\<lambda>(sprite, x, y, color, i, j, buffer). unat (s_height sprite - j))")
  show "wf (measure (\<lambda>(sprite, x, y, color, i, j, buffer). unat (s_height sprite - j)))"
    by simp
next
  fix sprite :: Sprite and x y color i j :: u32 and buffer b :: Buffer
  assume "j < s_height sprite"
  then have "unat (s_height sprite - (j + 1)) < unat (s_height sprite - j)"
    by unat_arith
  then show "((sprite, x, y, color, i, j + 1, b), (sprite, x, y, color, i, j, buffer))
      \<in> measure (\<lambda>(sprite, x, y, color, i, j, buffer). unat (s_height sprite - j))"
    by simp
qed

function draw_columns ::
  "Sprite \<Rightarrow> u32 \<Rightarrow> u32 \<Rightarrow> u32 \<Rightarrow> u32 \<Rightarrow> Buffer \<Rightarrow> ending + Buffer" where
  "draw_columns sprite x y color i buffer =
     (if i < s_width sprite
      then (case draw_column sprite x y color i 0 buffer of
              Inl e \<Rightarrow> Inl e
            | Inr b \<Rightarrow> draw_columns sprite x y color (i + 1) b)
      else Inr buffer)"
  by pat_completeness auto
termination
proof (relation "measure (\<lambda>(sprite, x, y, color, i, buffer). unat (s_width sprite - i))")
  show "wf (measure (\<lambda>(sprite, x, y, color, i, buffer). unat (s_width sprite - i)))"
    by simp
next
  fix sprite :: Sprite and x y color i :: u32 and buffer b :: Buffer
  assume "i < s_width sprite"
  then have "unat (s_width sprite - (i + 1)) < unat (s_width sprite - i)"
    by unat_arith
  then show "((sprite, x, y, color, i + 1, b), (sprite, x, y, color, i, buffer))
      \<in> measure (\<lambda>(sprite, x, y, color, i, buffer). unat (s_width sprite - i))"
    by simp
qed

definition DrawSprite :: "Buffer \<Rightarrow> Sprite \<Rightarrow> u32 \<Rightarrow> u32 \<Rightarrow> u32 \<Rightarrow> ending + Buffer" where
  "DrawSprite buffer sprite x y color = draw_columns sprite x y color 0 buffer"


subsection \<open>Game state\<close>

record Game =
  g_height :: u32
  g_width :: u32
  alien_hoard_size :: u32
  num_rockets :: u32
  frame_counter :: u32
  alien_array :: "Alien list"
  first_line_array :: "Alien list"
  player :: Player
  rockets :: "Rocket list"

text \<open>
  \<^verbatim>\<open>Sprite** frames\<close> points at entries of \<^verbatim>\<open>alien_sprites\<close>, which never change: the
  model stores the sprites themselves.
\<close>

record SpriteAnimation =
  loop :: bool
  num_frames :: u32
  frame_duration :: u32
  time :: u32
  frames :: "Sprite list"

text \<open>
  The variables of \<^verbatim>\<open>main\<close> that live across iterations of the game loop.  Of the three
  entries of \<^verbatim>\<open>alien_animation\<close> only the first two are ever initialised, so the model keeps
  two and a read of the third is undefined behaviour.
\<close>

record World =
  game :: Game
  death_counter :: "u8 list"
  alien_animation :: "SpriteAnimation list"
  score :: u32
  aliens_killed :: i32

text \<open>
  What the key callback and \<^verbatim>\<open>std::rand\<close> deliver to one iteration of the loop: the
  accumulated direction \<^verbatim>\<open>move_dir\<close>, the latch \<^verbatim>\<open>rocket_fired\<close> and the (non-negative)
  value \<^verbatim>\<open>std::rand()\<close> returns if it is called.
\<close>

record Input =
  move_dir :: i32
  rocket_fired :: bool
  rand_value :: nat

text \<open>A loop whose body may end the run: the body is applied to each counter value in turn.\<close>

fun for_each :: "(nat \<Rightarrow> 'a \<Rightarrow> ending + 'a) \<Rightarrow> nat list \<Rightarrow> 'a \<Rightarrow> ending + 'a" where
  "for_each body [] s = Inr s"
| "for_each body (i # is) s =
     (case body i s of Inl e \<Rightarrow> Inl e | Inr s' \<Rightarrow> for_each body is s')"

subsection \<open>Initialisation (before the game loop)\<close>

text \<open>
  \<^verbatim>\<open>new\<close> leaves the arrays with indeterminate contents; \<open>init\<close> takes them as its
  argument \<open>mem\<close> (a \<open>World\<close> whose arrays have the allocated sizes) and overwrites what
  \<^verbatim>\<open>main\<close> initialises.
\<close>

definition allocated :: "World \<Rightarrow> bool" where
  "allocated w =
     (length (alien_array (game w)) = 50 \<and> length (first_line_array (game w)) = 10 \<and>
      length (rockets (game w)) = GAME_MAX_ROCKETS \<and> length (death_counter w) = 50)"

definition init_death_counter :: "nat \<Rightarrow> u8 list \<Rightarrow> ending + u8 list" where
  "init_death_counter i dc = (if i < length dc then Inr (dc[i := 10]) else Inl UB)"

definition init_animation :: "nat \<Rightarrow> SpriteAnimation" where
  "init_animation i =
     \<lparr>loop = True, num_frames = 2, frame_duration = 10, time = 0,
      frames = [[alien_sprite_0, alien_sprite_1, alien_sprite_2, alien_sprite_3] ! (2 * i),
                [alien_sprite_0, alien_sprite_1, alien_sprite_2, alien_sprite_3] ! (2 * i + 1)]\<rparr>"

definition init_alien :: "nat \<Rightarrow> nat \<Rightarrow> Alien list \<Rightarrow> ending + Alien list" where
  "init_alien j i arr =
     (if j * 10 + i < length arr
      then Inr (arr[j * 10 + i :=
             \<lparr>a_x = 30 + of_nat i * (11 + 15), a_y = 250 + of_nat j * (8 + 15),
              a_type = (if (of_nat j :: u32) * 10 + 1 < 20 then 1 else 2)\<rparr>])
      else Inl UB)"

definition init_alien_row :: "nat \<Rightarrow> Alien list \<Rightarrow> ending + Alien list" where
  "init_alien_row j arr = for_each (init_alien j) [0..<10] arr"

definition init :: "World \<Rightarrow> ending + World" where
  "init mem =
     (case for_each init_death_counter [0..<50] (death_counter mem) of
        Inl e \<Rightarrow> Inl e
      | Inr dc \<Rightarrow>
     (case for_each init_alien_row [0..<5] (alien_array (game mem)) of
        Inl e \<Rightarrow> Inl e
      | Inr arr \<Rightarrow>
          Inr \<lparr>game = (game mem)
                 \<lparr>g_height := 400, g_width := 300, alien_hoard_size := 50, num_rockets := 0,
                  frame_counter := 0, alien_array := arr,
                  player := \<lparr>p_x = 150, p_y = 25, lives = 3\<rparr>\<rparr>,
               death_counter = dc,
               alien_animation = map init_animation [0..<2],
               score = 0,
               aliens_killed = 0\<rparr>))"

subsection \<open>One iteration of the game loop\<close>

text \<open>The alien draw loop: what is blitted for alien slot \<open>i\<close>, and where.\<close>

definition alien_frame :: "World \<Rightarrow> Alien \<Rightarrow> ending + Sprite" where
  "alien_frame w a =
     (if a_type a = 0 \<or> length (alien_animation w) \<le> unat (a_type a) - 1 then Inl UB
      else let animation = alien_animation w ! (unat (a_type a) - 1)
           in if frame_duration animation = 0 then Inl UB
              else let current_frame = time animation div frame_duration animation
                   in if length (frames animation) \<le> unat current_frame then Inl UB
                      else Inr (frames animation ! unat current_frame))"

definition alien_drawn :: "World \<Rightarrow> nat \<Rightarrow> ending + (Sprite \<times> u32 \<times> u32) option" where
  "alien_drawn w i =
     (if length (death_counter w) \<le> i \<or> length (alien_array (game w)) \<le> i then Inl UB
      else if death_counter w ! i = 0 then Inr None
      else let a = alien_array (game w) ! i
           in if a_type a = ALIEN_DEAD then Inr (Some (alien_death_sprite, a_x a, a_y a))
              else (case alien_frame w a of
                      Inl e \<Rightarrow> Inl e
                    | Inr sprite \<Rightarrow> Inr (Some (sprite, a_x a, a_y a))))"

definition draw_alien :: "World \<Rightarrow> nat \<Rightarrow> Buffer \<Rightarrow> ending + Buffer" where
  "draw_alien w i buffer =
     (case alien_drawn w i of
        Inl e \<Rightarrow> Inl e
      | Inr None \<Rightarrow> Inr buffer
      | Inr (Some (sprite, x, y)) \<Rightarrow> DrawSprite buffer sprite x y (rgb_to_uint32 128 0 0))"

definition draw_aliens :: "World \<Rightarrow> Buffer \<Rightarrow> ending + Buffer" where
  "draw_aliens w buffer =
     for_each (draw_alien w) [0..<unat (alien_hoard_size (game w))] buffer"

text \<open>Update of the animation clocks.\<close>

definition advance_animation :: "nat \<Rightarrow> SpriteAnimation list \<Rightarrow> ending + SpriteAnimation list" where
  "advance_animation i anims =
     (if length anims \<le> i then Inl UB
      else let a = anims ! i; t = time a + 1
           in Inr (anims[i := a\<lparr>time := (if t = num_frames a * frame_duration a then 0 else t)\<rparr>]))"

text \<open>The death countdown loop.\<close>

definition handle_death :: "nat \<Rightarrow> World \<Rightarrow> ending + World" where
  "handle_death i w =
     (if length (alien_array (game w)) \<le> i \<or> length (death_counter w) \<le> i then Inl UB
      else if a_type (alien_array (game w) ! i) = ALIEN_DEAD \<and> death_counter w ! i \<noteq> 0
      then Inr (w\<lparr>death_counter := (death_counter w)[i := death_counter w ! i - 1]\<rparr>)
      else Inr w)"

definition handle_deaths :: "World \<Rightarrow> ending + World" where
  "handle_deaths w = for_each handle_death [0..<unat (alien_hoard_size (game w))] w"

text \<open>
  Removal of rocket \<open>i\<close>: the last live rocket is copied over it and the count drops.
\<close>

definition remove_rocket :: "nat \<Rightarrow> Game \<Rightarrow> ending + Game" where
  "remove_rocket i g =
     (let last = unat (num_rockets g - 1)
      in if length (rockets g) \<le> last \<or> length (rockets g) \<le> i then Inl UB
         else Inr (g\<lparr>rockets := (rockets g)[i := rockets g ! last],
                     num_rockets := num_rockets g - 1\<rparr>))"

text \<open>
  The body of the inner loop over the aliens, for rocket slot \<open>i\<close> and alien \<open>j\<close>.  Both
  \<^verbatim>\<open>continue\<close> statements go on with alien \<open>j + 1\<close>.
\<close>

definition hit_alien :: "nat \<Rightarrow> nat \<Rightarrow> Sprite \<Rightarrow> World \<Rightarrow> ending + World" where
  "hit_alien i j alien_sprite w =
     (let g = game w; a = alien_array g ! j;
          a' = a\<lparr>a_type := ALIEN_DEAD,
                 a_x := a_x a - (s_width alien_death_sprite - s_width alien_sprite) div 2\<rparr>
      in case remove_rocket i (g\<lparr>alien_array := (alien_array g)[j := a']\<rparr>) of
           Inl e \<Rightarrow> Inl e
         | Inr g' \<Rightarrow>
             Inr (w\<lparr>score := score w + 10 * (4 - ucast (a_type a)),
                    aliens_killed := aliens_killed w + 1,
                    game := g'\<rparr>))"

definition check_alien :: "nat \<Rightarrow> nat \<Rightarrow> World \<Rightarrow> ending + World" where
  "check_alien i j w =
     (let g = game w
      in if length (alien_array g) \<le> j then Inl UB
         else if a_type (alien_array g ! j) = ALIEN_DEAD then Inr w
         else (case alien_frame w (alien_array g ! j) of
                 Inl e \<Rightarrow> Inl e
               | Inr alien_sprite \<Rightarrow>
                   if length (rockets g) \<le> i then Inl UB
                   else if sprite_overlap_check rocket_sprite (r_x (rockets g ! i))
                             (r_y (rockets g ! i)) alien_sprite
                             (a_x (alien_array g ! j)) (a_y (alien_array g ! j))
                        then hit_alien i j alien_sprite w
                        else Inr w))"

definition check_aliens :: "nat \<Rightarrow> World \<Rightarrow> ending + World" where
  "check_aliens i w = for_each (check_alien i) [0..<unat (alien_hoard_size (game w))] w"

text \<open>The test of rocket slot \<open>i\<close> against the player, after the alien loop.\<close>

definition check_player :: "nat \<Rightarrow> World \<Rightarrow> ending + World" where
  "check_player i w =
     (let g = game w
      in if length (rockets g) \<le> i then Inl UB
         else if sprite_overlap_check rocket_sprite (r_x (rockets g ! i)) (r_y (rockets g ! i))
                   playerSprite (p_x (player g)) (p_y (player g))
         then (let l = lives (player g) - 1
               in if l = 0 then Inl Loss
                  else Inr (w\<lparr>game := g\<lparr>player := \<lparr>p_x = 150, p_y = 25, lives = l\<rparr>\<rparr>\<rparr>))
         else Inr w)"

text \<open>The body of the loop over the rockets, for slot \<open>i\<close>.\<close>

definition rocket_step :: "nat \<Rightarrow> World \<Rightarrow> ending + World" where
  "rocket_step i w =
     (let g = game w
      in if length (rockets g) \<le> i then Inl UB
         else let r = rockets g ! i;
                  y = r_y r + dir r;
                  g1 = g\<lparr>rockets := (rockets g)[i := r\<lparr>r_y := y\<rparr>]\<rparr>
              in if y \<ge> g_height g1 \<or> y < s_height rocket_sprite
                 then (case remove_rocket i g1 of
                         Inl e \<Rightarrow> Inl e
                       | Inr g2 \<Rightarrow> Inr (w\<lparr>game := g2\<rparr>))
                 else (case check_aliens i (w\<lparr>game := g1\<rparr>) of
                         Inl e \<Rightarrow> Inl e
                       | Inr w2 \<Rightarrow> check_player i w2))"

text \<open>
  The loop over the rockets: the bound \<^verbatim>\<open>game.num_rockets\<close> is read again before every
  iteration.
\<close>

function rocket_loop :: "nat \<Rightarrow> World \<Rightarrow> ending + World" where
  "rocket_loop i w =
     (if i < unat (num_rockets (game w))
      then (if GAME_MAX_ROCKETS \<le> i then Inl UB
            else (case rocket_step i w of
                    Inl e \<Rightarrow> Inl e
                  | Inr w' \<Rightarrow> rocket_loop (i + 1) w'))
      else Inr w)"
  by pat_completeness auto
termination
  by (relation "measure (\<lambda>(i, w). GAME_MAX_ROCKETS - i)") auto

text \<open>Player movement.  Signed overflow wraps, as it does in the compiled program.\<close>

definition player_move :: "i32 \<Rightarrow> World \<Rightarrow> World" where
  "player_move md w =
     (let g = game w; p = player g; player_move_dir = 2 * md
      in if player_move_dir \<noteq> 0
         then (if p_x p + s_width playerSprite + player_move_dir \<ge> g_width g
               then w\<lparr>game := g\<lparr>player := p\<lparr>p_x := g_width g - s_width playerSprite\<rparr>\<rparr>\<rparr>
               else if sint (p_x p + player_move_dir) \<le> 0
               then w\<lparr>game := g\<lparr>player := p\<lparr>p_x := 0\<rparr>\<rparr>\<rparr>
               else w\<lparr>game := g\<lparr>player := p\<lparr>p_x := p_x p + player_move_dir\<rparr>\<rparr>\<rparr>)
         else w)"

text \<open>
  The first line array.  \<open>next_tier\<close> is the loop over the rows 1 to 4 of column \<open>i\<close>; it
  returns the flag \<^verbatim>\<open>isAlien\<close> and leaves at the first alien that is not dead.
\<close>

fun next_tier :: "nat \<Rightarrow> nat list \<Rightarrow> Game \<Rightarrow> ending + (Game \<times> bool)" where
  "next_tier i [] g = Inr (g, False)"
| "next_tier i (j # js) g =
     (if length (alien_array g) \<le> i + 10 * j then Inl UB
      else if a_type (alien_array g ! (i + 10 * j)) \<noteq> ALIEN_DEAD
      then (if length (first_line_array g) \<le> i then Inl UB
            else Inr (g\<lparr>first_line_array :=
                         (first_line_array g)[i := alien_array g ! (i + 10 * j)]\<rparr>, True))
      else next_tier i js g)"

definition first_line_column :: "nat \<Rightarrow> Game \<Rightarrow> ending + Game" where
  "first_line_column i g =
     (if length (alien_array g) \<le> i \<or> length (first_line_array g) \<le> i then Inl UB
      else if a_type (alien_array g ! i) \<noteq> ALIEN_DEAD
      then Inr (g\<lparr>first_line_array := (first_line_array g)[i := alien_array g ! i]\<rparr>)
      else (case next_tier i [1..<5] g of
              Inl e \<Rightarrow> Inl e
            | Inr (g', isAlien) \<Rightarrow>
                if isAlien = False
                then (if length (alien_array g') \<le> i + 40 then Inl UB
                      else Inr (g'\<lparr>first_line_array :=
                                    (first_line_array g')[i := alien_array g' ! (i + 40)]\<rparr>))
                else Inr g'))"

definition update_first_line :: "Game \<Rightarrow> ending + Game" where
  "update_first_line g = for_each first_line_column [0..<10] g"

text \<open>Alien fire and player fire.\<close>

definition alien_fire :: "nat \<Rightarrow> Game \<Rightarrow> ending + Game" where
  "alien_fire rnd g0 =
     (let g = g0\<lparr>frame_counter := frame_counter g0 + 1\<rparr>
      in if frame_counter g = 30 \<and> num_rockets g < of_nat GAME_MAX_ROCKETS
         then (let rand = rnd mod 10
               in if length (first_line_array g) \<le> rand then Inl UB
                  else if a_type (first_line_array g ! rand) \<noteq> ALIEN_DEAD
                  then (if length (rockets g) \<le> unat (num_rockets g) then Inl UB
                        else Inr (g\<lparr>rockets := (rockets g)[unat (num_rockets g) :=
                                       \<lparr>r_x = a_x (first_line_array g ! rand) + 4,
                                        r_y = a_y (first_line_array g ! rand) - 10,
                                        dir = - 3\<rparr>],
                                    num_rockets := num_rockets g + 1,
                                    frame_counter := 0\<rparr>))
                  else Inr (g\<lparr>frame_counter := 0\<rparr>))
         else Inr g)"

definition player_fire :: "bool \<Rightarrow> Game \<Rightarrow> ending + Game" where
  "player_fire fired g =
     (if fired = True \<and> num_rockets g < of_nat GAME_MAX_ROCKETS
      then (if length (rockets g) \<le> unat (num_rockets g) then Inl UB
            else Inr (g\<lparr>rockets := (rockets g)[unat (num_rockets g) :=
                           \<lparr>r_x = p_x (player g) + s_width playerSprite div 2,
                            r_y = p_y (player g) + s_height playerSprite,
                            dir = 3\<rparr>],
                        num_rockets := num_rockets g + 1\<rparr>))
      else Inr g)"

text \<open>
  One iteration of the game loop, from the update of the animation clocks to the end of
  the loop body.  (The drawing at the top of the iteration reads the state and writes only
  the pixel buffer.)
\<close>

definition tick :: "Input \<Rightarrow> World \<Rightarrow> ending + World" where
  "tick inp w =
     (case for_each advance_animation [0..<2] (alien_animation w) of
        Inl e \<Rightarrow> Inl e
      | Inr anims \<Rightarrow>
     (case handle_deaths (w\<lparr>alien_animation := anims\<rparr>) of
        Inl e \<Rightarrow> Inl e
      | Inr w1 \<Rightarrow>
     (case rocket_loop 0 w1 of
        Inl e \<Rightarrow> Inl e
      | Inr w2 \<Rightarrow>
          if aliens_killed w2 = 50 then Inl Win
          else (let w3 = player_move (move_dir inp) w2
                in case update_first_line (game w3) of
                     Inl e \<Rightarrow> Inl e
                   | Inr g4 \<Rightarrow>
                  (case alien_fire (rand_value inp) g4 of
                     Inl e \<Rightarrow> Inl e
                   | Inr g5 \<Rightarrow>
                  (case player_fire (rocket_fired inp) g5 of
                     Inl e \<Rightarrow> Inl e
                   | Inr g6 \<Rightarrow> Inr (w3\<lparr>game := g6\<rparr>)))))))"

text \<open>Running the loop on a list of inputs, one per iteration.\<close>

fun run :: "Input list \<Rightarrow> World \<Rightarrow> ending + World" where
  "run [] w = Inr w"
| "run (inp # inps) w = (case tick inp w of Inl e \<Rightarrow> Inl e | Inr w' \<Rightarrow> run inps w')"

text \<open>The states the program can be in at the top of an iteration of the game loop.\<close>

inductive reachable :: "World \<Rightarrow> bool" where
  reachable_init: "allocated mem \<Longrightarrow> init mem = Inr w \<Longrightarrow> reachable w"
| reachable_tick: "reachable w \<Longrightarrow> tick inp w = Inr w' \<Longrightarrow> reachable w'"


subsection \<open>Notions used to state the properties\<close>

text \<open>
  The alien formation: slot \<open>k\<close> is column \<open>k mod 10\<close> of row \<open>k div 10\<close>; rows 0 and 1
  hold type A, rows 2 to 4 type B.
\<close>

definition formation_alien :: "nat \<Rightarrow> Alien" where
  "formation_alien k =
     \<lparr>a_x = 30 + 26 * of_nat (k mod 10), a_y = 250 + 23 * of_nat (k div 10),
      a_type = (if k div 10 < 2 then ALIEN_TYPE_A else ALIEN_TYPE_B)\<rparr>"

text \<open>The two animation clocks as \<^verbatim>\<open>main\<close> sets them up, at any time below the period.\<close>

definition animations_ok :: "SpriteAnimation list \<Rightarrow> bool" where
  "animations_ok anims =
     (length anims = 2 \<and>
      frames (anims ! 0) = [alien_sprite_0, alien_sprite_1] \<and>
      frames (anims ! 1) = [alien_sprite_2, alien_sprite_3] \<and>
      list_all (\<lambda>a. num_frames a = 2 \<and> frame_duration a = 10 \<and> time a < 20) anims)"

text \<open>
  The invariant of the game loop: the arrays keep their sizes, the field keeps its
  dimensions, every alien that is not dead stands where the formation put it with its
  death counter untouched, the player is inside the field and the rocket count is within
  the capacity of the pool.
\<close>

definition game_inv :: "World \<Rightarrow> bool" where
  "game_inv w =
     (allocated w \<and>
      g_width (game w) = 300 \<and> g_height (game w) = 400 \<and> alien_hoard_size (game w) = 50 \<and>
      animations_ok (alien_animation w) \<and>
      list_all (\<lambda>k. a_type (alien_array (game w) ! k) \<noteq> ALIEN_DEAD \<longrightarrow>
                    alien_array (game w) ! k = formation_alien k \<and> death_counter w ! k = 10)
               [0..<50] \<and>
      p_x (player (game w)) \<le> 290 \<and>
      unat (num_rockets (game w)) \<le> GAME_MAX_ROCKETS)"

text \<open>
  Rocket \<open>r\<close> overlaps alien \<open>a\<close> as the collision loop tests it: against the sprite of
  the alien's current animation frame.
\<close>

definition rocket_hits :: "World \<Rightarrow> Rocket \<Rightarrow> Alien \<Rightarrow> bool" where
  "rocket_hits w r a =
     (case alien_frame w a of
        Inl e \<Rightarrow> False
      | Inr alien_sprite \<Rightarrow>
          sprite_overlap_check rocket_sprite (r_x r) (r_y r) alien_sprite (a_x a) (a_y a))"

text \<open>Uninitialised memory of the allocated sizes, and a shorthand for inputs.\<close>

definition blank_memory :: World where
  "blank_memory =
     \<lparr>game = \<lparr>g_height = 0, g_width = 0, alien_hoard_size = 0, num_rockets = 0,
              frame_counter = 0,
              alien_array = replicate 50 \<lparr>a_x = 0, a_y = 0, a_type = 0\<rparr>,
              first_line_array = replicate 10 \<lparr>a_x = 0, a_y = 0, a_type = 0\<rparr>,
              player = \<lparr>p_x = 0, p_y = 0, lives = 0\<rparr>,
              rockets = replicate 128 \<lparr>r_x = 0, r_y = 0, dir = 0\<rparr>\<rparr>,
      death_counter = replicate 50 0, alien_animation = [], score = 0, aliens_killed = 0\<rparr>"


text \<open>
  The states in which the player-movement step of an iteration starts: a reachable state
  has gone through the animation update, the death countdown and the rocket loop, and the
  win test has not ended the game.
\<close>

inductive at_player_move :: "World \<Rightarrow> bool" where
  "reachable w \<Longrightarrow>
   for_each advance_animation [0..<2] (alien_animation w) = Inr anims \<Longrightarrow>
   handle_deaths (w\<lparr>alien_animation := anims\<rparr>) = Inr w1 \<Longrightarrow>
   rocket_loop 0 w1 = Inr w2 \<Longrightarrow>
   aliens_killed w2 \<noteq> 50 \<Longrightarrow>
   at_player_move w2"

text \<open>The state in which the game loop starts when the memory was blank.\<close>

definition initial_world :: World where
  "initial_world =
     \<lparr>game = (game blank_memory)
              \<lparr>g_height := 400, g_width := 300, alien_hoard_size := 50, num_rockets := 0,
               frame_counter := 0, alien_array := map formation_alien [0..<50],
               player := \<lparr>p_x = 150, p_y = 25, lives = 3\<rparr>\<rparr>,
      death_counter = replicate 50 10,
      alien_animation = map init_animation [0..<2],
      score = 0, aliens_killed = 0\<rparr>"

text \<open>
  Two states in which the alien-fire step is tried: the whole formation alive with the
  fire counter one short of 30, once with an empty rocket pool and once with a full one.
\<close>

definition firing_squad :: Game where
  "firing_squad =
     \<lparr>g_height = 400, g_width = 300, alien_hoard_size = 50, num_rockets = 0,
      frame_counter = 29,
      alien_array = map formation_alien [0..<50],
      first_line_array = map formation_alien [0..<10],
      player = \<lparr>p_x = 150, p_y = 25, lives = 3\<rparr>,
      rockets = replicate 128 \<lparr>r_x = 0, r_y = 0, dir = 0\<rparr>\<rparr>"

definition full_pool :: Game where
  "full_pool = firing_squad\<lparr>num_rockets := 128,
       rockets := replicate 128 \<lparr>r_x = 155, r_y = 200, dir = 3\<rparr>\<rparr>"

text \<open>The initial state after the first animation update, where the first player move starts.\<close>

definition first_move_world :: World where
  "first_move_world =
     initial_world\<lparr>alien_animation := map (\<lambda>a. a\<lparr>time := 1\<rparr>) (alien_animation initial_world)\<rparr>"

text \<open>
  The front rank of column \<open>c\<close>: the alien of the lowest row that is not dead, and the
  alien of row 4 when the whole column is dead.
\<close>

definition front_rank :: "Alien list \<Rightarrow> nat \<Rightarrow> Alien" where
  "front_rank aliens c =
     (if a_type (aliens ! c) \<noteq> ALIEN_DEAD then aliens ! c
      else if a_type (aliens ! (c + 10)) \<noteq> ALIEN_DEAD then aliens ! (c + 10)
      else if a_type (aliens ! (c + 20)) \<noteq> ALIEN_DEAD then aliens ! (c + 20)
      else if a_type (aliens ! (c + 30)) \<noteq> ALIEN_DEAD then aliens ! (c + 30)
      else aliens ! (c + 40))"

text \<open>
  A formation in which rows 0 to 2 of column 4 and all five rows of column 7 are dead.
\<close>

definition thinned_game :: Game where
  "thinned_game =
     firing_squad\<lparr>alien_array :=
       map (\<lambda>k. if k \<in> {4, 14, 24, 7, 17, 27, 37, 47}
                 then (formation_alien k)\<lparr>a_type := ALIEN_DEAD\<rparr> else formation_alien k)
           [0..<50]\<rparr>"

text \<open>
  \<open>corpses_kept w w'\<close>: from \<open>w\<close> to \<open>w'\<close> no death counter has changed and every alien
  that was dead is the same record as before.
\<close>

definition corpses_kept :: "World \<Rightarrow> World \<Rightarrow> bool" where
  "corpses_kept w w' =
     (death_counter w' = death_counter w \<and>
      (\<forall>k. a_type (alien_array (game w) ! k) = ALIEN_DEAD \<longrightarrow>
           alien_array (game w') ! k = alien_array (game w) ! k))"

text \<open>
  A state of the invariant with one rocket in flight just below alien 5 (column 5 of
  row 0), and the same state with the rocket one step further, inside the alien's box.
\<close>

definition approaching_world :: World where
  "approaching_world =
     first_move_world\<lparr>game := (game first_move_world)
       \<lparr>num_rockets := 1,
        rockets := (rockets (game first_move_world))[0 := \<lparr>r_x = 164, r_y = 244, dir = 3\<rparr>]\<rparr>\<rparr>"

definition striking_world :: World where
  "striking_world =
     first_move_world\<lparr>game := (game first_move_world)
       \<lparr>num_rockets := 1,
        rockets := (rockets (game first_move_world))[0 := \<lparr>r_x = 164, r_y = 247, dir = 3\<rparr>]\<rparr>\<rparr>"

definition idle :: Input where
  "idle = \<lparr>move_dir = 0, rocket_fired = False, rand_value = 0\<rparr>"

text \<open>
  The state of the alien loop for rocket slot \<open>i\<close>, started in \<open>w\<close>, when the aliens below
  \<open>j'\<close> have been tested and \<open>j\<close> is the first alien the rocket of slot \<open>i\<close> hits: only
  slot \<open>i\<close> and the count of the pool have changed among the rockets; an alien has changed
  only by being killed, and then it is \<open>j\<close> or it overlaps a rocket that stood behind
  slot \<open>i\<close> in the pool; up to \<open>j\<close> nothing has happened, and after \<open>j\<close> slot \<open>i\<close> holds
  either the rocket copied from the end of the pool or, when the pool ends at \<open>i\<close>, the
  rocket that made the latest kill.
\<close>

definition scan_inv :: "World \<Rightarrow> nat \<Rightarrow> nat \<Rightarrow> nat \<Rightarrow> World \<Rightarrow> bool" where
  "scan_inv w i j j' v =
     (alien_animation v = alien_animation w \<and>
      alien_hoard_size (game v) = 50 \<and>
      length (alien_array (game v)) = 50 \<and> length (rockets (game v)) = 128 \<and>
      (\<forall>m. m \<noteq> i \<longrightarrow> rockets (game v) ! m = rockets (game w) ! m) \<and>
      i \<le> unat (num_rockets (game v)) \<and>
      unat (num_rockets (game v)) \<le> unat (num_rockets (game w)) \<and>
      (\<forall>k<50. alien_array (game v) ! k = alien_array (game w) ! k \<or>
          (k < j' \<and> a_type (alien_array (game w) ! k) \<noteq> ALIEN_DEAD \<and>
           a_type (alien_array (game v) ! k) = ALIEN_DEAD \<and>
           (k = j \<or> (\<exists>m. i < m \<and> m < unat (num_rockets (game w)) \<and>
                         rocket_hits w (rockets (game w) ! m) (alien_array (game w) ! k))))) \<and>
      (if j' \<le> j then game v = game w
       else a_type (alien_array (game v) ! j) = ALIEN_DEAD \<and>
            unat (num_rockets (game v)) < unat (num_rockets (game w)) \<and>
            (if i < unat (num_rockets (game v))
             then rockets (game v) ! i = rockets (game w) ! unat (num_rockets (game v))
             else \<exists>k0<j'. a_type (alien_array (game w) ! k0) \<noteq> ALIEN_DEAD \<and>
                    rocket_hits w (rockets (game v) ! i) (alien_array (game w) ! k0))))"

text \<open>
  A buffer and a sprite are well formed when their data hold \<open>width * height\<close> entries
  and this product fits the 32-bit index arithmetic.  \<open>pixel\<close> reads the buffer at a
  coordinate, \<open>sprite_bit\<close> the mask of a sprite, both with the index arithmetic of
  \<^verbatim>\<open>DrawSprite\<close>.
\<close>

definition buffer_ok :: "Buffer \<Rightarrow> bool" where
  "buffer_ok b =
     (length (b_data b) = unat (b_width b) * unat (b_height b) \<and>
      unat (b_width b) * unat (b_height b) < 2 ^ 32)"

definition sprite_ok :: "Sprite \<Rightarrow> bool" where
  "sprite_ok sp =
     (length (s_data sp) = unat (s_width sp) * unat (s_height sp) \<and>
      unat (s_width sp) * unat (s_height sp) < 2 ^ 32)"

definition pixel :: "Buffer \<Rightarrow> u32 \<Rightarrow> u32 \<Rightarrow> u32" where
  "pixel b px py = b_data b ! unat (py * b_width b + px)"

definition sprite_bit :: "Sprite \<Rightarrow> u32 \<Rightarrow> u32 \<Rightarrow> bool" where
  "sprite_bit sp i j = (s_data sp ! unat (j * s_width sp + i) \<noteq> 0)"

text \<open>A buffer of 4 by 3 pixels, all 0.\<close>

definition tiny_buffer :: Buffer where
  "tiny_buffer = \<lparr>b_width = 4, b_height = 3, b_data = replicate 12 0\<rparr>"

section \<open>Properties\<close>

subsection \<open>Loops\<close>

lemma for_each_append:
  "for_each body (xs @ ys) s =
     (case for_each body xs s of Inl e \<Rightarrow> Inl e | Inr s' \<Rightarrow> for_each body ys s')"
  by (induction xs arbitrary: s) (auto split: sum.splits)

lemma for_each_upt_Suc:
  "for_each body [0..<Suc n] s =
     (case for_each body [0..<n] s of Inl e \<Rightarrow> Inl e | Inr s' \<Rightarrow> body n s')"
  by (simp add: for_each_append split: sum.splits)

text \<open>Total correctness of a counting loop: an invariant indexed by the counter.\<close>

lemma for_each_total:
  assumes "P 0 s"
    and "\<And>i t. i < n \<Longrightarrow> P i t \<Longrightarrow> \<exists>t'. body i t = Inr t' \<and> P (Suc i) t'"
  shows "\<exists>s'. for_each body [0..<n] s = Inr s' \<and> P n s'"
  using assms(2)
proof (induction n)
  case 0
  then show ?case using assms(1) by simp
next
  case (Suc n)
  then obtain t where t: "for_each body [0..<n] s = Inr t" "P n t"
    by (metis less_Suc_eq)
  from Suc.prems[of n t] t obtain t' where "body n t = Inr t'" "P (Suc n) t'"
    by auto
  with t show ?case
    by (simp add: for_each_append)
qed

text \<open>Partial correctness: an invariant of the body is an invariant of the loop.\<close>

lemma for_each_invariant:
  assumes "for_each body xs s = Inr s'" and "P s"
    and "\<And>i t t'. i \<in> set xs \<Longrightarrow> P t \<Longrightarrow> body i t = Inr t' \<Longrightarrow> P t'"
  shows "P s'"
  using assms
proof (induction xs arbitrary: s)
  case Nil
  then show ?case by simp
next
  case (Cons i xs)
  from Cons.prems(1) obtain t where t: "body i s = Inr t" "for_each body xs t = Inr s'"
    by (auto split: sum.splits)
  have "P t" using Cons.prems(3)[of i s t] Cons.prems(2) t(1) by simp
  show ?case
  proof (rule Cons.IH[OF t(2) \<open>P t\<close>])
    fix j u u' assume "j \<in> set xs" "P u" "body j u = Inr u'"
    then show "P u'" using Cons.prems(3)[of j u u'] by simp
  qed
qed

subsection \<open>Initialisation\<close>

lemma init_death_counter_loop:
  fixes dc :: "u8 list"
  assumes "length dc = n"
  shows "for_each init_death_counter [0..<n] dc = Inr (replicate n 10)"
proof -
  have "\<exists>s'. for_each init_death_counter [0..<n] dc = Inr s' \<and>
          (length s' = n \<and> (\<forall>k<n. s' ! k = 10))"
  proof (rule for_each_total[where P="\<lambda>i (t::u8 list). length t = n \<and> (\<forall>k<i. t ! k = 10)"])
    show "length dc = n \<and> (\<forall>k<0. dc ! k = 10)" using assms by simp
  next
    fix i and t :: "u8 list" assume "i < n" "length t = n \<and> (\<forall>k<i. t ! k = 10)"
    then show "\<exists>t'. init_death_counter i t = Inr t' \<and> (length t' = n \<and> (\<forall>k<Suc i. t' ! k = 10))"
      by (auto simp: init_death_counter_def nth_list_update less_Suc_eq)
  qed
  then obtain s' where s': "for_each init_death_counter [0..<n] dc = Inr s'" "length s' = n" "\<forall>k<n. s' ! k = 10"
    by blast
  then have "s' = replicate n 10"
    by (auto intro: nth_equalityI)
  with s' show ?thesis by simp
qed

lemma init_alien_eq:
  assumes "j < 5" "i < 10" "length arr = 50"
  shows "init_alien j i arr = Inr (arr[j * 10 + i := formation_alien (j * 10 + i)])"
proof -
  have "j \<in> {0,1,2,3,4}" using assms(1) by auto
  then have t: "((of_nat j :: u32) * 10 + 1 < 20) = (j < 2)" by auto
  have "(j * 10 + i) div 10 = j" "(j * 10 + i) mod 10 = i" using assms by auto
  then show ?thesis using assms t
    by (simp add: init_alien_def formation_alien_def ALIEN_TYPE_A_def ALIEN_TYPE_B_def mult.commute)
qed

lemma init_alien_row_eq:
  assumes "j < 5" "length arr = 50"
  shows "\<exists>arr'. init_alien_row j arr = Inr arr' \<and> length arr' = 50 \<and>
     (\<forall>k<50. arr' ! k = (if k div 10 = j then formation_alien k else arr ! k))"
proof -
  have "\<exists>s'. for_each (init_alien j) [0..<10] arr = Inr s' \<and>
     (length s' = 50 \<and> (\<forall>k<50. s' ! k = (if k div 10 = j \<and> k mod 10 < 10 then formation_alien k else arr ! k)))"
  proof (rule for_each_total[where P="\<lambda>i t. length t = 50 \<and> (\<forall>k<50. t ! k = (if k div 10 = j \<and> k mod 10 < i then formation_alien k else arr ! k))"])
    show "length arr = 50 \<and> (\<forall>k<50. arr ! k = (if k div 10 = j \<and> k mod 10 < 0 then formation_alien k else arr ! k))"
      using assms by simp
  next
    fix i t assume i: "i < 10" and P: "length t = 50 \<and> (\<forall>k<50. t ! k = (if k div 10 = j \<and> k mod 10 < i then formation_alien k else arr ! k))"
    have eq: "init_alien j i t = Inr (t[j * 10 + i := formation_alien (j * 10 + i)])"
      using init_alien_eq[OF assms(1) i] P by simp
    have "\<forall>k<50. (t[j * 10 + i := formation_alien (j * 10 + i)]) ! k = (if k div 10 = j \<and> k mod 10 < Suc i then formation_alien k else arr ! k)"
    proof (intro allI impI)
      fix k :: nat assume k: "k < 50"
      have "(k = j * 10 + i) = (k div 10 = j \<and> k mod 10 = i)" using i by auto
      then show "(t[j * 10 + i := formation_alien (j * 10 + i)]) ! k = (if k div 10 = j \<and> k mod 10 < Suc i then formation_alien k else arr ! k)"
        using P k by (auto simp: nth_list_update less_Suc_eq)
    qed
    then show "\<exists>t'. init_alien j i t = Inr t' \<and> (length t' = 50 \<and> (\<forall>k<50. t' ! k = (if k div 10 = j \<and> k mod 10 < Suc i then formation_alien k else arr ! k)))"
      using eq P by simp
  qed
  then show ?thesis by (simp add: init_alien_row_def)
qed

lemma init_aliens_eq:
  assumes "length arr = 50"
  shows "for_each init_alien_row [0..<5] arr = Inr (map formation_alien [0..<50])"
proof -
  have "\<exists>s'. for_each init_alien_row [0..<5] arr = Inr s' \<and>
     (length s' = 50 \<and> (\<forall>k<50. s' ! k = (if k div 10 < 5 then formation_alien k else arr ! k)))"
  proof (rule for_each_total[where P="\<lambda>j t. length t = 50 \<and> (\<forall>k<50. t ! k = (if k div 10 < j then formation_alien k else arr ! k))"])
    show "length arr = 50 \<and> (\<forall>k<50. arr ! k = (if k div 10 < 0 then formation_alien k else arr ! k))"
      using assms by simp
  next
    fix j t assume j: "j < 5" and P: "length t = 50 \<and> (\<forall>k<50. t ! k = (if k div 10 < j then formation_alien k else arr ! k))"
    from init_alien_row_eq[OF j, of t] P obtain t' where
      t': "init_alien_row j t = Inr t'" "length t' = 50" "\<forall>k<50. t' ! k = (if k div 10 = j then formation_alien k else t ! k)"
      by auto
    have "\<forall>k<50. t' ! k = (if k div 10 < Suc j then formation_alien k else arr ! k)"
      using t'(3) P by (auto simp: less_Suc_eq)
    with t' show "\<exists>t'. init_alien_row j t = Inr t' \<and> (length t' = 50 \<and> (\<forall>k<50. t' ! k = (if k div 10 < Suc j then formation_alien k else arr ! k)))"
      by simp
  qed
  then obtain s' where s': "for_each init_alien_row [0..<5] arr = Inr s'" "length s' = 50"
     "\<forall>k<50. s' ! k = (if k div 10 < 5 then formation_alien k else arr ! k)" by blast
  have "s' = map formation_alien [0..<50]"
  proof (rule nth_equalityI)
    show "length s' = length (map formation_alien [0..<50])" using s' by simp
  next
    fix k assume "k < length s'"
    then have k: "k < 50" using s' by simp
    then have "k div 10 < 5" by auto
    then show "s' ! k = map formation_alien [0..<50] ! k" using s'(3) k by simp
  qed
  with s' show ?thesis by simp
qed


subsection \<open>The invariant of the game loop\<close>

lemma sprite_sizes [simp]:
  "s_width rocket_sprite = 2" "s_height rocket_sprite = 5"
  "s_width playerSprite = 10" "s_height playerSprite = 10"
  "s_width alien_death_sprite = 13" "s_height alien_death_sprite = 7"
  "s_width alien_sprite_0 = 11" "s_height alien_sprite_0 = 8"
  "s_width alien_sprite_1 = 11" "s_height alien_sprite_1 = 8"
  "s_width alien_sprite_2 = 8" "s_height alien_sprite_2 = 8"
  "s_width alien_sprite_3 = 8" "s_height alien_sprite_3 = 8"
  by (simp_all add: rocket_sprite_def playerSprite_def alien_death_sprite_def
      alien_sprite_0_def alien_sprite_1_def alien_sprite_2_def alien_sprite_3_def)

lemma clock_step: "t < 20 \<Longrightarrow> t + 1 \<noteq> 20 \<Longrightarrow> t + 1 < (20 :: u32)"
  by unat_arith

lemma advance_animation_ok:
  assumes "animations_ok anims" and "i < 2" and "advance_animation i anims = Inr anims'"
  shows "animations_ok anims'"
proof -
  from assms(1) obtain a b where ab: "anims = [a, b]"
    by (auto simp: animations_ok_def length_Suc_conv numeral_2_eq_2)
  from assms(2) have "i = 0 \<or> i = 1" by auto
  then show ?thesis
    using assms(1,3) unfolding ab
    by (auto simp: animations_ok_def advance_animation_def Let_def clock_step)
qed

lemma advance_animations_ok:
  assumes "animations_ok anims" and "for_each advance_animation [0..<2] anims = Inr anims'"
  shows "animations_ok anims'"
  by (rule for_each_invariant[where P = animations_ok, OF assms(2) assms(1)])
    (auto intro: advance_animation_ok)

lemma handle_death_inv:
  assumes "game_inv w" and "handle_death i w = Inr w'"
  shows "game_inv w'"
proof (cases "a_type (alien_array (game w) ! i) = ALIEN_DEAD \<and> death_counter w ! i \<noteq> 0")
  case True
  with assms(2) have w': "w' = w\<lparr>death_counter := (death_counter w)[i := death_counter w ! i - 1]\<rparr>"
    by (auto simp: handle_death_def split: if_splits)
  have "(death_counter w)[i := death_counter w ! i - 1] ! k = death_counter w ! k"
    if "a_type (alien_array (game w) ! k) \<noteq> ALIEN_DEAD" for k
  proof -
    from that True have "i \<noteq> k" by auto
    then show ?thesis by simp
  qed
  then show ?thesis
    using assms(1) unfolding w' game_inv_def allocated_def
    by (simp add: list_all_iff)
next
  case False
  with assms(2) have "w' = w"
    by (auto simp: handle_death_def split: if_splits)
  with assms(1) show ?thesis by simp
qed

lemma handle_deaths_inv:
  assumes "game_inv w" and "handle_deaths w = Inr w'"
  shows "game_inv w'"
  using assms(2) unfolding handle_deaths_def
  by (rule for_each_invariant[where P = game_inv]) (auto intro: assms(1) handle_death_inv)

lemma remove_rocket_frame:
  assumes "remove_rocket i g = Inr g'"
  shows "g' = g\<lparr>rockets := (rockets g)[i := rockets g ! unat (num_rockets g - 1)],
               num_rockets := num_rockets g - 1\<rparr> \<and>
         unat (num_rockets g - 1) < length (rockets g) \<and> i < length (rockets g)"
  using assms by (auto simp: remove_rocket_def Let_def split: if_splits)

lemma remove_rocket_inv:
  assumes "game_inv (w\<lparr>game := g\<rparr>)" and "remove_rocket i g = Inr g'"
  shows "game_inv (w\<lparr>game := g'\<rparr>)"
  using assms(1) remove_rocket_frame[OF assms(2)]
  by (auto simp: game_inv_def allocated_def)

lemma hit_alien_inv:
  assumes "game_inv w" and "j < 50" and "hit_alien i j sp w = Inr w'"
  shows "game_inv w'"
proof -
  define a' where "a' = (alien_array (game w) ! j)\<lparr>a_type := ALIEN_DEAD,
      a_x := a_x (alien_array (game w) ! j) - (s_width alien_death_sprite - s_width sp) div 2\<rparr>"
  define g1 where "g1 = (game w)\<lparr>alien_array := (alien_array (game w))[j := a']\<rparr>"
  from assms(3) obtain g' where g': "remove_rocket i g1 = Inr g'"
    and w': "w' = w\<lparr>score := score w + 10 * (4 - ucast (a_type (alien_array (game w) ! j))),
                    aliens_killed := aliens_killed w + 1, game := g'\<rparr>"
    by (auto simp: hit_alien_def Let_def g1_def a'_def split: sum.splits)
  have "game_inv (w\<lparr>game := g1\<rparr>)"
    using assms(1,2) unfolding game_inv_def allocated_def g1_def a'_def
    by (auto simp: list_all_iff nth_list_update)
  from remove_rocket_inv[OF this g'] show ?thesis
    unfolding w' by (simp add: game_inv_def allocated_def)
qed

lemma check_alien_inv:
  assumes "game_inv w" and "j < 50" and "check_alien i j w = Inr w'"
  shows "game_inv w'"
  using assms
  by (auto simp: check_alien_def Let_def split: if_splits sum.splits intro: hit_alien_inv)

lemma check_aliens_inv:
  assumes "game_inv w" and "check_aliens i w = Inr w'"
  shows "game_inv w'"
proof -
  have n: "unat (alien_hoard_size (game w)) = 50"
    using assms(1) by (simp add: game_inv_def)
  show ?thesis
    using assms(2) unfolding check_aliens_def n
    by (rule for_each_invariant[where P = game_inv]) (auto intro: assms(1) check_alien_inv)
qed

lemma check_player_inv:
  assumes "game_inv w" and "check_player i w = Inr w'"
  shows "game_inv w'"
  using assms
  by (auto simp: check_player_def Let_def game_inv_def allocated_def split: if_splits)

lemma rocket_step_inv:
  assumes "game_inv w" and "rocket_step i w = Inr w'"
  shows "game_inv w'"
proof -
  define g1 where "g1 = (game w)\<lparr>rockets := (rockets (game w))
      [i := (rockets (game w) ! i)\<lparr>r_y := r_y (rockets (game w) ! i) + dir (rockets (game w) ! i)\<rparr>]\<rparr>"
  have inv1: "game_inv (w\<lparr>game := g1\<rparr>)"
    using assms(1) by (simp add: game_inv_def allocated_def g1_def)
  from assms(2) consider
      g2 where "remove_rocket i g1 = Inr g2" "w' = w\<lparr>game := g2\<rparr>"
    | w2 where "check_aliens i (w\<lparr>game := g1\<rparr>) = Inr w2" "check_player i w2 = Inr w'"
    by (auto simp: rocket_step_def Let_def g1_def split: if_splits sum.splits)
  then show ?thesis
  proof cases
    case 1
    then show ?thesis using remove_rocket_inv[OF inv1] by simp
  next
    case 2
    then show ?thesis using check_aliens_inv[OF inv1] check_player_inv by blast
  qed
qed

lemma positive_sint_small:
  fixes z :: u32
  assumes "0 < sint z"
  shows "unat z < 2147483648"
proof -
  have b: "sint z < 2147483648" using sint_lt[of z] by simp
  have "uint z = take_bit 32 (sint z)" using uint_sint[of z] by simp
  also have "\<dots> = sint z"
  proof (rule take_bit_int_eq_self)
    show "0 \<le> sint z" using assms by simp
    show "sint z < 2 ^ 32" using b by simp
  qed
  finally have "uint z = sint z" .
  with b have "uint z < 2147483648" by simp
  then have "int (unat z) < 2147483648" by simp
  then show ?thesis by linarith
qed

lemma player_move_bound:
  assumes "p_x (player (game w)) \<le> 290" and "g_width (game w) = 300"
  shows "p_x (player (game (player_move md w))) \<le> 290"
proof -
  define z where "z = p_x (player (game w)) + 2 * md"
  have z: "z \<le> 290" if a: "\<not> 300 \<le> z + 10" and b: "\<not> sint z \<le> 0"
  proof -
    from b have "unat z < 2147483648" using positive_sint_small[of z] by simp
    then have "unat (z + 10) = unat z + 10" by (simp add: unat_word_ariths)
    moreover from a have "unat (z + 10) < 300" by (simp add: word_le_nat_alt)
    ultimately show "z \<le> 290" by (simp add: word_le_nat_alt)
  qed
  have e: "p_x (player (game w)) + 10 + 2 * md = z + 10" by (simp add: z_def)
  consider (still) "2 * md = 0"
    | (right) "2 * md \<noteq> 0" "300 \<le> z + 10"
    | (left) "2 * md \<noteq> 0" "\<not> 300 \<le> z + 10" "sint z \<le> 0"
    | (free) "2 * md \<noteq> 0" "\<not> 300 \<le> z + 10" "\<not> sint z \<le> 0"
    by blast
  then show ?thesis
  proof cases
    case still
    then show ?thesis using assms by (simp add: player_move_def Let_def)
  next
    case right
    then show ?thesis using assms by (simp add: player_move_def Let_def e)
  next
    case left
    then show ?thesis using assms by (simp add: player_move_def Let_def e z_def[symmetric])
  next
    case free
    then show ?thesis using assms z by (simp add: player_move_def Let_def e z_def[symmetric])
  qed
qed

lemma player_move_inv:
  assumes "game_inv w"
  shows "game_inv (player_move md w)"
proof -
  have "p_x (player (game (player_move md w))) \<le> 290"
    using assms by (intro player_move_bound) (simp_all add: game_inv_def)
  moreover have "\<exists>x. player_move md w = w\<lparr>game := (game w)\<lparr>player := (player (game w))\<lparr>p_x := x\<rparr>\<rparr>\<rparr>"
    by (auto simp: player_move_def Let_def intro: exI[of _ "p_x (player (game w))"])
  ultimately show ?thesis
    using assms by (auto simp: game_inv_def allocated_def)
qed

lemma next_tier_frame:
  assumes "next_tier i js g = Inr (g', b)"
  shows "\<exists>fl. g' = g\<lparr>first_line_array := fl\<rparr> \<and> length fl = length (first_line_array g)"
  using assms
proof (induction js)
  case Nil
  then show ?case by (auto intro: exI[of _ "first_line_array g"])
next
  case (Cons j js)
  then show ?case by (auto split: if_splits)
qed

lemma first_line_column_frame:
  assumes "first_line_column i g = Inr g'"
  shows "\<exists>fl. g' = g\<lparr>first_line_array := fl\<rparr> \<and> length fl = length (first_line_array g)"
proof (cases "a_type (alien_array g ! i) \<noteq> ALIEN_DEAD")
  case True
  with assms show ?thesis by (auto simp: first_line_column_def split: if_splits)
next
  case False
  with assms obtain g1 b where g1: "next_tier i [1..<5] g = Inr (g1, b)"
    and g': "g' = (if b = False then g1\<lparr>first_line_array :=
                 (first_line_array g1)[i := alien_array g1 ! (i + 40)]\<rparr> else g1)"
    by (auto simp: first_line_column_def split: if_splits sum.splits)
  from next_tier_frame[OF g1] obtain fl where "g1 = g\<lparr>first_line_array := fl\<rparr>"
    "length fl = length (first_line_array g)" by blast
  then show ?thesis unfolding g' by auto
qed

lemma update_first_line_frame:
  assumes "update_first_line g = Inr g'"
  shows "\<exists>fl. g' = g\<lparr>first_line_array := fl\<rparr> \<and> length fl = length (first_line_array g)"
  using assms unfolding update_first_line_def
proof (rule for_each_invariant[where
      P = "\<lambda>t. \<exists>fl. t = g\<lparr>first_line_array := fl\<rparr> \<and> length fl = length (first_line_array g)"])
  show "\<exists>fl. g = g\<lparr>first_line_array := fl\<rparr> \<and> length fl = length (first_line_array g)"
    by (auto intro: exI[of _ "first_line_array g"])
next
  fix i t t'
  assume "\<exists>fl. t = g\<lparr>first_line_array := fl\<rparr> \<and> length fl = length (first_line_array g)"
    and "first_line_column i t = Inr t'"
  then show "\<exists>fl. t' = g\<lparr>first_line_array := fl\<rparr> \<and> length fl = length (first_line_array g)"
    using first_line_column_frame[of i t t'] by auto
qed

lemma update_first_line_inv:
  assumes "game_inv (w\<lparr>game := g\<rparr>)" and "update_first_line g = Inr g'"
  shows "game_inv (w\<lparr>game := g'\<rparr>)"
  using assms(1) update_first_line_frame[OF assms(2)]
  by (auto simp: game_inv_def allocated_def)

lemma pool_grows: "n < (128 :: u32) \<Longrightarrow> unat (n + 1) \<le> 128"
  by unat_arith

lemma alien_fire_inv:
  assumes "game_inv (w\<lparr>game := g\<rparr>)" and "alien_fire rnd g = Inr g'"
  shows "game_inv (w\<lparr>game := g'\<rparr>)"
  using assms
  by (auto simp: alien_fire_def Let_def game_inv_def allocated_def GAME_MAX_ROCKETS_def pool_grows
      split: if_splits)

lemma player_fire_inv:
  assumes "game_inv (w\<lparr>game := g\<rparr>)" and "player_fire fired g = Inr g'"
  shows "game_inv (w\<lparr>game := g'\<rparr>)"
  using assms
  by (auto simp: player_fire_def Let_def game_inv_def allocated_def GAME_MAX_ROCKETS_def pool_grows
      split: if_splits)

lemma init_total:
  assumes "allocated mem"
  shows "init mem = Inr
     \<lparr>game = (game mem)\<lparr>g_height := 400, g_width := 300, alien_hoard_size := 50,
               num_rockets := 0, frame_counter := 0,
               alien_array := map formation_alien [0..<50],
               player := \<lparr>p_x = 150, p_y = 25, lives = 3\<rparr>\<rparr>,
      death_counter = replicate 50 10,
      alien_animation = map init_animation [0..<2],
      score = 0, aliens_killed = 0\<rparr>"
  using assms
  by (simp add: init_def allocated_def init_death_counter_loop init_aliens_eq)

lemma init_animations_ok: "animations_ok (map init_animation [0..<2])"
  by code_simp

lemma init_inv:
  assumes "allocated mem" and "init mem = Inr w"
  shows "game_inv w"
proof -
  have w: "w = \<lparr>game = (game mem)\<lparr>g_height := 400, g_width := 300, alien_hoard_size := 50,
               num_rockets := 0, frame_counter := 0,
               alien_array := map formation_alien [0..<50],
               player := \<lparr>p_x = 150, p_y = 25, lives = 3\<rparr>\<rparr>,
      death_counter = replicate 50 10,
      alien_animation = map init_animation [0..<2],
      score = 0, aliens_killed = 0\<rparr>"
    using init_total[OF assms(1)] assms(2) by simp
  show ?thesis
    using assms(1) unfolding w game_inv_def allocated_def
    by (simp add: init_animations_ok list_all_iff)
qed


lemma rocket_loop_inv:
  assumes "game_inv w" and "rocket_loop i w = Inr w'"
  shows "game_inv w'"
  using assms
proof (induction i w rule: rocket_loop.induct)
  case (1 i w)
  note unfold = rocket_loop.simps[of i w]
  show ?case
  proof (cases "i < unat (num_rockets (game w))")
    case True
    show ?thesis
    proof (cases "rocket_step i w")
      case (Inl e)
      with True "1.prems"(2) show ?thesis by (simp add: unfold split: if_splits)
    next
      case (Inr w1)
      with True "1.prems"(2) have b: "\<not> GAME_MAX_ROCKETS \<le> i" and l: "rocket_loop (i + 1) w1 = Inr w'"
        by (simp_all add: unfold split: if_splits)
      have "game_inv w1" using rocket_step_inv[OF "1.prems"(1) Inr] .
      then show ?thesis using "1.IH"[OF True b Inr] l by simp
    qed
  next
    case False
    with "1.prems" show ?thesis by (simp add: unfold)
  qed
qed

lemma tick_stages:
  assumes "tick inp w = Inr w'"
  obtains anims w1 w2 g4 g5 g6 where
    "for_each advance_animation [0..<2] (alien_animation w) = Inr anims"
    "handle_deaths (w\<lparr>alien_animation := anims\<rparr>) = Inr w1"
    "rocket_loop 0 w1 = Inr w2"
    "aliens_killed w2 \<noteq> 50"
    "update_first_line (game (player_move (move_dir inp) w2)) = Inr g4"
    "alien_fire (rand_value inp) g4 = Inr g5"
    "player_fire (rocket_fired inp) g5 = Inr g6"
    "w' = (player_move (move_dir inp) w2)\<lparr>game := g6\<rparr>"
proof -
  obtain anims where s1: "for_each advance_animation [0..<2] (alien_animation w) = Inr anims"
    using assms
    by (cases "for_each advance_animation [0..<2] (alien_animation w)") (simp_all add: tick_def)
  obtain w1 where s2: "handle_deaths (w\<lparr>alien_animation := anims\<rparr>) = Inr w1"
    using assms s1
    by (cases "handle_deaths (w\<lparr>alien_animation := anims\<rparr>)") (simp_all add: tick_def)
  obtain w2 where s3: "rocket_loop 0 w1 = Inr w2"
    using assms s1 s2 by (cases "rocket_loop 0 w1") (simp_all add: tick_def)
  have k: "aliens_killed w2 \<noteq> 50"
    using assms s1 s2 s3 by (auto simp: tick_def)
  define w3 where "w3 = player_move (move_dir inp) w2"
  obtain g4 where s4: "update_first_line (game w3) = Inr g4"
    using assms s1 s2 s3 k
    by (cases "update_first_line (game w3)") (simp_all add: tick_def w3_def Let_def)
  obtain g5 where s5: "alien_fire (rand_value inp) g4 = Inr g5"
    using assms s1 s2 s3 s4 k
    by (cases "alien_fire (rand_value inp) g4") (simp_all add: tick_def w3_def Let_def)
  obtain g6 where s6: "player_fire (rocket_fired inp) g5 = Inr g6"
    using assms s1 s2 s3 s4 s5 k
    by (cases "player_fire (rocket_fired inp) g5") (simp_all add: tick_def w3_def Let_def)
  have "w' = w3\<lparr>game := g6\<rparr>"
    using assms s1 s2 s3 s4 s5 s6 k by (simp add: tick_def w3_def Let_def)
  with s1 s2 s3 k s4 s5 s6 show ?thesis
    unfolding w3_def by (rule that)
qed

lemma tick_inv:
  assumes "game_inv w" and "tick inp w = Inr w'"
  shows "game_inv w'"
proof -
  from assms(2) obtain anims w1 w2 g4 g5 g6 where
    s1: "for_each advance_animation [0..<2] (alien_animation w) = Inr anims" and
    s2: "handle_deaths (w\<lparr>alien_animation := anims\<rparr>) = Inr w1" and
    s3: "rocket_loop 0 w1 = Inr w2" and
    s4: "update_first_line (game (player_move (move_dir inp) w2)) = Inr g4" and
    s5: "alien_fire (rand_value inp) g4 = Inr g5" and
    s6: "player_fire (rocket_fired inp) g5 = Inr g6" and
    w': "w' = (player_move (move_dir inp) w2)\<lparr>game := g6\<rparr>"
    by (rule tick_stages)
  define w3 where "w3 = player_move (move_dir inp) w2"
  have "game_inv (w\<lparr>alien_animation := anims\<rparr>)"
    using assms(1) advance_animations_ok[OF _ s1] by (simp add: game_inv_def allocated_def)
  then have "game_inv w1" using handle_deaths_inv s2 by blast
  then have "game_inv w2" using rocket_loop_inv s3 by blast
  then have "game_inv w3" unfolding w3_def by (rule player_move_inv)
  then have "game_inv (w3\<lparr>game := game w3\<rparr>)" by simp
  from update_first_line_inv[OF this s4[folded w3_def]] have "game_inv (w3\<lparr>game := g4\<rparr>)" .
  from alien_fire_inv[OF this s5] have "game_inv (w3\<lparr>game := g5\<rparr>)" .
  from player_fire_inv[OF this s6] show ?thesis unfolding w' w3_def .
qed

lemma reachable_inv: "reachable w \<Longrightarrow> game_inv w"
  by (induction rule: reachable.induct) (auto intro: init_inv tick_inv)


subsection \<open>The formation at the start of the game\<close>

lemma blank_memory_allocated: "allocated blank_memory"
  by (simp add: allocated_def blank_memory_def GAME_MAX_ROCKETS_def)

lemma init_blank_memory: "init blank_memory = Inr initial_world"
  unfolding initial_world_def by (rule init_total[OF blank_memory_allocated])

lemma reachable_initial_world: "reachable initial_world"
  by (rule reachable_init[OF blank_memory_allocated init_blank_memory])

text \<open>
  Claim C10.  Initialisation creates exactly 50 aliens in a grid of 10 columns and 5 rows:
  the alien of column \<open>i\<close> and row \<open>j\<close> is slot \<open>j * 10 + i\<close>, stands at
  \<open>x = 30 + 26 * i\<close>, \<open>y = 250 + 23 * j\<close> and has type 1 in rows 0 and 1 and type 2 in
  rows 2 to 4.  No alien starts dead and every death counter starts at 10.  Whatever the
  freshly allocated arrays held, initialisation succeeds with this result.
\<close>

theorem init_formation:
  assumes "allocated mem"
  shows "\<exists>w. init mem = Inr w \<and> length (alien_array (game w)) = 50 \<and>
           (\<forall>i<10. \<forall>j<5. alien_array (game w) ! (j * 10 + i) =
              \<lparr>a_x = 30 + 26 * of_nat i, a_y = 250 + 23 * of_nat j,
               a_type = (if j < 2 then 1 else 2)\<rparr>) \<and>
           (\<forall>k<50. a_type (alien_array (game w) ! k) \<noteq> ALIEN_DEAD) \<and>
           death_counter w = replicate 50 10"
proof -
  have "map formation_alien [0..<50] ! (j * 10 + i) =
      \<lparr>a_x = 30 + 26 * of_nat i, a_y = 250 + 23 * of_nat j, a_type = (if j < 2 then 1 else 2)\<rparr>"
    if "i < 10" "j < 5" for i j :: nat
  proof -
    have "(j * 10 + i) div 10 = j" "(j * 10 + i) mod 10 = i" "j * 10 + i < 50"
      using that by auto
    then show ?thesis
      by (simp add: formation_alien_def ALIEN_TYPE_A_def ALIEN_TYPE_B_def del: upt_Suc)
  qed
  moreover have "a_type (map formation_alien [0..<50] ! k) \<noteq> ALIEN_DEAD" if "k < 50" for k
    using that
    by (simp add: formation_alien_def ALIEN_TYPE_A_def ALIEN_TYPE_B_def ALIEN_DEAD_def del: upt_Suc)
  ultimately show ?thesis
    unfolding init_total[OF assms] by simp
qed

theorem init_formation_witness:
  "allocated blank_memory \<and>
   (case init blank_memory of
      Inl e \<Rightarrow> False
    | Inr w \<Rightarrow> alien_array (game w) ! 23 = \<lparr>a_x = 108, a_y = 296, a_type = 2\<rparr> \<and>
               alien_array (game w) ! 17 = \<lparr>a_x = 212, a_y = 273, a_type = 1\<rparr> \<and>
               death_counter w ! 23 = 10)"
proof -
  from init_formation[OF blank_memory_allocated] obtain w where
    w: "init blank_memory = Inr w"
    and a: "\<forall>i<10. \<forall>j<5. alien_array (game w) ! (j * 10 + i) =
              \<lparr>a_x = 30 + 26 * of_nat i, a_y = 250 + 23 * of_nat j,
               a_type = (if j < 2 then 1 else 2)\<rparr>"
    and d: "death_counter w = replicate 50 10"
    by blast
  from a[rule_format, of 3 2] have "alien_array (game w) ! 23 = \<lparr>a_x = 108, a_y = 296, a_type = 2\<rparr>"
    by simp
  moreover from a[rule_format, of 7 1] have "alien_array (game w) ! 17 = \<lparr>a_x = 212, a_y = 273, a_type = 1\<rparr>"
    by simp
  ultimately show ?thesis
    using w d blank_memory_allocated by simp
qed


subsection \<open>Bounding-box overlap\<close>

lemma boxes_share_pixel_iff:
  "boxes_share_pixel sp_a x_a y_a sp_b x_b y_b \<longleftrightarrow>
     (\<exists>px py. unat x_a \<le> px \<and> px < unat x_a + unat (s_width sp_a) \<and>
              unat x_b \<le> px \<and> px < unat x_b + unat (s_width sp_b) \<and>
              unat y_a \<le> py \<and> py < unat y_a + unat (s_height sp_a) \<and>
              unat y_b \<le> py \<and> py < unat y_b + unat (s_height sp_b))"
proof
  assume "boxes_share_pixel sp_a x_a y_a sp_b x_b y_b"
  then show "\<exists>px py. unat x_a \<le> px \<and> px < unat x_a + unat (s_width sp_a) \<and>
              unat x_b \<le> px \<and> px < unat x_b + unat (s_width sp_b) \<and>
              unat y_a \<le> py \<and> py < unat y_a + unat (s_height sp_a) \<and>
              unat y_b \<le> py \<and> py < unat y_b + unat (s_height sp_b)"
    unfolding boxes_share_pixel_def
    by (intro exI[of _ "max (unat x_a) (unat x_b)"] exI[of _ "max (unat y_a) (unat y_b)"]) simp
next
  assume "\<exists>px py. unat x_a \<le> px \<and> px < unat x_a + unat (s_width sp_a) \<and>
              unat x_b \<le> px \<and> px < unat x_b + unat (s_width sp_b) \<and>
              unat y_a \<le> py \<and> py < unat y_a + unat (s_height sp_a) \<and>
              unat y_b \<le> py \<and> py < unat y_b + unat (s_height sp_b)"
  then show "boxes_share_pixel sp_a x_a y_a sp_b x_b y_b"
    unfolding boxes_share_pixel_def by auto
qed

text \<open>
  Claim C5, as stated, fails where the unsigned sums wrap around: two identical 2x2 boxes
  at \<open>x = 2^32 - 1\<close> share all their pixels, yet \<open>x + width\<close> wraps to 1 and the
  test answers false.
\<close>

theorem sprite_overlap_check_wraps:
  "boxes_share_pixel square2 0xFFFFFFFF 0 square2 0xFFFFFFFF 0 \<and>
   \<not> sprite_overlap_check square2 0xFFFFFFFF 0 square2 0xFFFFFFFF 0"
  by (simp add: boxes_share_pixel_def sprite_overlap_check_def square2_def)

text \<open>
  Claim C5, amended.  \<^verbatim>\<open>sprite_overlap_check\<close> is symmetric for all sprite sizes and
  positions; all four comparisons are strict, so two boxes of which one ends where the
  other begins (they share only an edge) are reported as not overlapping; and two boxes
  that share a pixel are reported as overlapping provided neither \<open>x + width\<close> nor
  \<open>y + height\<close> exceeds the 32-bit range.
\<close>

theorem sprite_overlap_check_boxes:
  "sprite_overlap_check sp_a x_a y_a sp_b x_b y_b = sprite_overlap_check sp_b x_b y_b sp_a x_a y_a \<and>
   (unat x_a + unat (s_width sp_a) = unat x_b \<or> unat y_a + unat (s_height sp_a) = unat y_b
      \<longrightarrow> \<not> sprite_overlap_check sp_a x_a y_a sp_b x_b y_b) \<and>
   (box_no_overflow sp_a x_a y_a \<and> box_no_overflow sp_b x_b y_b \<and>
    boxes_share_pixel sp_a x_a y_a sp_b x_b y_b
      \<longrightarrow> sprite_overlap_check sp_a x_a y_a sp_b x_b y_b)"
proof (intro conjI impI)
  show "sprite_overlap_check sp_a x_a y_a sp_b x_b y_b = sprite_overlap_check sp_b x_b y_b sp_a x_a y_a"
    by (auto simp: sprite_overlap_check_def)
next
  assume "unat x_a + unat (s_width sp_a) = unat x_b \<or> unat y_a + unat (s_height sp_a) = unat y_b"
  then show "\<not> sprite_overlap_check sp_a x_a y_a sp_b x_b y_b"
    unfolding sprite_overlap_check_def
    by (auto simp: word_less_nat_alt unat_word_ariths)
next
  assume "box_no_overflow sp_a x_a y_a \<and> box_no_overflow sp_b x_b y_b \<and>
    boxes_share_pixel sp_a x_a y_a sp_b x_b y_b"
  then show "sprite_overlap_check sp_a x_a y_a sp_b x_b y_b"
    unfolding sprite_overlap_check_def boxes_share_pixel_def box_no_overflow_def
    by (auto simp: word_less_nat_alt unat_word_ariths)
qed

theorem sprite_overlap_check_boxes_witness:
  "\<not> sprite_overlap_check square2 0 0 square2 2 0 \<and>
   box_no_overflow square2 0 0 \<and> box_no_overflow square2 1 1 \<and>
   boxes_share_pixel square2 0 0 square2 1 1 \<and>
   sprite_overlap_check square2 0 0 square2 1 1 \<and>
   sprite_overlap_check square2 1 1 square2 0 0"
proof -
  have e: "unat (0::u32) + unat (s_width square2) = unat (2::u32)"
    by (simp add: square2_def)
  have n: "box_no_overflow square2 0 0" "box_no_overflow square2 1 1"
    by (simp_all add: box_no_overflow_def square2_def)
  have s: "boxes_share_pixel square2 0 0 square2 1 1"
    by (simp add: boxes_share_pixel_def square2_def)
  from sprite_overlap_check_boxes[of square2 0 0 square2 2 0] e
  have 1: "\<not> sprite_overlap_check square2 0 0 square2 2 0" by blast
  from sprite_overlap_check_boxes[of square2 0 0 square2 1 1] n s
  have 2: "sprite_overlap_check square2 0 0 square2 1 1"
    and 3: "sprite_overlap_check square2 1 1 square2 0 0" by blast+
  from 1 2 3 n s show ?thesis by blast
qed


subsection \<open>Alien fire\<close>

lemma alien_fire_firing_squad:
  "alien_fire 3 firing_squad =
     Inr (firing_squad\<lparr>rockets := (rockets firing_squad)[0 := \<lparr>r_x = 112, r_y = 240, dir = - 3\<rparr>],
                       num_rockets := 1, frame_counter := 0\<rparr>)"
  by (simp add: alien_fire_def firing_squad_def Let_def GAME_MAX_ROCKETS_def formation_alien_def
      ALIEN_DEAD_def ALIEN_TYPE_A_def del: upt_Suc)

text \<open>
  Claim C7, as stated, fails: the rocket an alien fires carries the direction value -3,
  which is not positive.  Here column 3 of the untouched formation fires.
\<close>

theorem alien_rocket_direction_negative:
  "(case alien_fire 3 firing_squad of
      Inl e \<Rightarrow> False
    | Inr g \<Rightarrow> num_rockets g = num_rockets firing_squad + 1 \<and>
               rockets g ! 0 = \<lparr>r_x = 112, r_y = 240, dir = - 3\<rparr> \<and>
               sint (dir (rockets g ! 0)) = - 3 \<and>
               \<not> 0 < sint (dir (rockets g ! 0)))"
  by (simp add: alien_fire_firing_squad) (simp add: firing_squad_def)

text \<open>
  Claim C7, amended.  Every projectile spawned by an alien fire attempt belongs to a
  front-rank alien that is not dead, is anchored at that alien's position shifted by
  \<open>(+4, -10)\<close>, and carries the direction value -3: a negative value, which lowers \<open>y\<close>
  by 3 whenever the rocket loop adds it, towards the player at \<open>y = 25\<close>.
\<close>

theorem alien_fire_spawn:
  assumes "alien_fire rnd g = Inr g'" and "num_rockets g' \<noteq> num_rockets g"
  shows "num_rockets g' = num_rockets g + 1 \<and>
         a_type (first_line_array g ! (rnd mod 10)) \<noteq> ALIEN_DEAD \<and>
         rockets g' ! unat (num_rockets g) =
           \<lparr>r_x = a_x (first_line_array g ! (rnd mod 10)) + 4,
            r_y = a_y (first_line_array g ! (rnd mod 10)) - 10,
            dir = - 3\<rparr> \<and>
         sint (dir (rockets g' ! unat (num_rockets g))) = - 3 \<and>
         r_y (rockets g' ! unat (num_rockets g)) + dir (rockets g' ! unat (num_rockets g)) =
           r_y (rockets g' ! unat (num_rockets g)) - 3"
  using assms
  by (auto simp: alien_fire_def Let_def split: if_splits)

theorem alien_fire_spawn_witness:
  "(case alien_fire 3 firing_squad of
      Inl e \<Rightarrow> False
    | Inr g \<Rightarrow> num_rockets g \<noteq> num_rockets firing_squad \<and>
               rockets g ! unat (num_rockets firing_squad) =
                 \<lparr>r_x = a_x (first_line_array firing_squad ! (3 mod 10)) + 4,
                  r_y = a_y (first_line_array firing_squad ! (3 mod 10)) - 10,
                  dir = - 3\<rparr> \<and>
               sint (dir (rockets g ! unat (num_rockets firing_squad))) = - 3)"
proof -
  define g where "g = firing_squad\<lparr>rockets := (rockets firing_squad)[0 := \<lparr>r_x = 112, r_y = 240, dir = - 3\<rparr>],
                       num_rockets := 1, frame_counter := 0\<rparr>"
  have f: "alien_fire 3 firing_squad = Inr g"
    unfolding g_def by (rule alien_fire_firing_squad)
  have n: "num_rockets g \<noteq> num_rockets firing_squad"
    by (simp add: g_def firing_squad_def)
  from alien_fire_spawn[OF f n] n show ?thesis
    by (simp add: f)
qed

text \<open>
  Claim C6 at a full pool.  With 128 live rockets the counter goes from 29 to 30 without
  being reset and without a fire attempt, and from 30 on to 31: the reset is inside the
  branch that the capacity test guards.
\<close>

theorem alien_fire_full_pool:
  "alien_fire 3 full_pool = Inr (full_pool\<lparr>frame_counter := 30\<rparr>) \<and>
   alien_fire 3 (full_pool\<lparr>frame_counter := 30\<rparr>) = Inr (full_pool\<lparr>frame_counter := 31\<rparr>) \<and>
   num_rockets full_pool = 128 \<and> frame_counter full_pool = 29"
  by (simp add: alien_fire_def full_pool_def firing_squad_def Let_def GAME_MAX_ROCKETS_def)

lemma alien_fire_counter:
  assumes "alien_fire rnd g = Inr g'"
  shows "frame_counter g' =
     (if frame_counter g + 1 = 30 \<and> num_rockets g < 128 then 0 else frame_counter g + 1)"
  using assms
  by (auto simp: alien_fire_def Let_def GAME_MAX_ROCKETS_def split: if_splits)


subsection \<open>Player movement\<close>

lemma at_player_move_inv:
  assumes "at_player_move w"
  shows "game_inv w"
  using assms
proof cases
  case (1 w0 anims w1)
  have "game_inv w0" using 1(1) by (rule reachable_inv)
  then have "game_inv (w0\<lparr>alien_animation := anims\<rparr>)"
    using advance_animations_ok[OF _ 1(2)] by (simp add: game_inv_def allocated_def)
  then have "game_inv w1" using handle_deaths_inv 1(3) by blast
  then show ?thesis using rocket_loop_inv 1(4) by blast
qed

lemma player_move_frame:
  "\<exists>x. player_move md w = w\<lparr>game := (game w)\<lparr>player := (player (game w))\<lparr>p_x := x\<rparr>\<rparr>\<rparr>"
  by (auto simp: player_move_def Let_def intro: exI[of _ "p_x (player (game w))"])

text \<open>
  Claim C9.  In every iteration of the game loop, after the player-movement step the
  player's \<open>x\<close> is at most the field width minus the width of the player sprite (and at
  least 0, being unsigned), so the sprite's bounding box lies inside the field; and when
  neither boundary test fires, \<open>x\<close> has changed by exactly twice the accumulated
  direction.  This holds for every value of the accumulator.
\<close>

theorem player_stays_in_field:
  assumes "at_player_move w"
  shows "p_x (player (game (player_move md w)))
           \<le> g_width (game (player_move md w)) - s_width playerSprite \<and>
         unat (p_x (player (game (player_move md w)))) + unat (s_width playerSprite)
           \<le> unat (g_width (game (player_move md w))) \<and>
         (\<not> g_width (game w) \<le> p_x (player (game w)) + s_width playerSprite + 2 * md \<and>
          \<not> sint (p_x (player (game w)) + 2 * md) \<le> 0
            \<longrightarrow> p_x (player (game (player_move md w))) = p_x (player (game w)) + 2 * md)"
proof -
  have inv: "game_inv w" using assms by (rule at_player_move_inv)
  then have w: "g_width (game w) = 300" and x: "p_x (player (game w)) \<le> 290"
    by (simp_all add: game_inv_def)
  obtain x' where m: "player_move md w = w\<lparr>game := (game w)\<lparr>player := (player (game w))\<lparr>p_x := x'\<rparr>\<rparr>\<rparr>"
    using player_move_frame by blast
  have b: "p_x (player (game (player_move md w))) \<le> 290"
    using x w by (rule player_move_bound)
  then have "unat (p_x (player (game (player_move md w)))) \<le> 290"
    by (simp add: word_le_nat_alt)
  moreover have "g_width (game (player_move md w)) = 300"
    using w by (simp add: m)
  moreover have "\<not> g_width (game w) \<le> p_x (player (game w)) + s_width playerSprite + 2 * md \<and>
          \<not> sint (p_x (player (game w)) + 2 * md) \<le> 0
            \<longrightarrow> p_x (player (game (player_move md w))) = p_x (player (game w)) + 2 * md"
    by (simp add: player_move_def Let_def)
  ultimately show ?thesis using b by simp
qed

lemma at_player_move_first: "at_player_move first_move_world"
proof (rule at_player_move.intros)
  show "reachable initial_world" by (rule reachable_initial_world)
  show "for_each advance_animation [0..<2] (alien_animation initial_world)
      = Inr (map (\<lambda>a. a\<lparr>time := 1\<rparr>) (alien_animation initial_world))"
    by code_simp
  show "handle_deaths (initial_world\<lparr>alien_animation :=
      map (\<lambda>a. a\<lparr>time := 1\<rparr>) (alien_animation initial_world)\<rparr>) = Inr first_move_world"
    by code_simp
  show "rocket_loop 0 first_move_world = Inr first_move_world"
    by code_simp
  show "aliens_killed first_move_world \<noteq> 50"
    by code_simp
qed

theorem player_stays_in_field_witness:
  "p_x (player (game (player_move 1 first_move_world))) = 152 \<and>
   p_x (player (game first_move_world)) = 150 \<and>
   unat (p_x (player (game (player_move 1 first_move_world)))) + unat (s_width playerSprite)
     \<le> unat (g_width (game (player_move 1 first_move_world)))"
proof -
  have x: "p_x (player (game first_move_world)) = 150" and w: "g_width (game first_move_world) = 300"
    by (simp_all add: first_move_world_def initial_world_def)
  have h: "\<not> g_width (game first_move_world)
            \<le> p_x (player (game first_move_world)) + s_width playerSprite + 2 * 1 \<and>
           \<not> sint (p_x (player (game first_move_world)) + 2 * 1) \<le> 0"
    by (simp add: x w)
  note t = player_stays_in_field[OF at_player_move_first, of 1]
  from t have b: "unat (p_x (player (game (player_move 1 first_move_world)))) + unat (s_width playerSprite)
     \<le> unat (g_width (game (player_move 1 first_move_world)))"
    by blast
  from t h have "p_x (player (game (player_move 1 first_move_world)))
      = p_x (player (game first_move_world)) + 2 * 1"
    by blast
  then have "p_x (player (game (player_move 1 first_move_world))) = 152"
    by (simp add: x)
  with b x show ?thesis by blast
qed


subsection \<open>The first line\<close>

lemma tiers: "[Suc 0..<5] = [1, 2, 3, 4]"
  by code_simp

lemma first_line_column_eq:
  assumes "length (alien_array g) = 50" and "length (first_line_array g) = 10" and "c < 10"
  shows "first_line_column c g =
     Inr (g\<lparr>first_line_array := (first_line_array g)[c := front_rank (alien_array g) c]\<rparr>)"
  using assms
  by (simp add: first_line_column_def tiers front_rank_def)

lemma update_first_line_eq:
  assumes "length (alien_array g) = 50" and "length (first_line_array g) = 10"
  shows "\<exists>g'. update_first_line g = Inr g' \<and> alien_array g' = alien_array g \<and>
     length (first_line_array g') = 10 \<and>
     (\<forall>c<10. first_line_array g' ! c = front_rank (alien_array g) c)"
proof -
  have "\<exists>g'. for_each first_line_column [0..<10] g = Inr g' \<and>
     (alien_array g' = alien_array g \<and> length (first_line_array g') = 10 \<and>
      (\<forall>c<10. first_line_array g' ! c = front_rank (alien_array g) c))"
  proof (rule for_each_total[where P = "\<lambda>i (t::Game). alien_array t = alien_array g \<and>
      length (first_line_array t) = 10 \<and>
      (\<forall>c<i. first_line_array t ! c = front_rank (alien_array g) c)"])
    show "alien_array g = alien_array g \<and> length (first_line_array g) = 10 \<and>
      (\<forall>c<0. first_line_array g ! c = front_rank (alien_array g) c)"
      using assms by simp
  next
    fix i and t :: Game
    assume i: "i < 10" and P: "alien_array t = alien_array g \<and> length (first_line_array t) = 10 \<and>
      (\<forall>c<i. first_line_array t ! c = front_rank (alien_array g) c)"
    have "first_line_column i t =
        Inr (t\<lparr>first_line_array := (first_line_array t)[i := front_rank (alien_array t) i]\<rparr>)"
      using P assms(1) i by (intro first_line_column_eq) simp_all
    then show "\<exists>t'. first_line_column i t = Inr t' \<and> (alien_array t' = alien_array g \<and>
      length (first_line_array t') = 10 \<and>
      (\<forall>c<Suc i. first_line_array t' ! c = front_rank (alien_array g) c))"
      using P i by (auto simp: nth_list_update less_Suc_eq)
  qed
  then show ?thesis by (simp add: update_first_line_def)
qed

text \<open>
  Claim C3.  For every column \<open>c\<close> of the ten, the first-line entry computed for \<open>c\<close>
  is the record of the alien in the lowest-numbered row of that column that is not dead
  (row \<open>r\<close> of column \<open>c\<close> is slot \<open>c + 10 * r\<close>; row 0 is the one nearest the player);
  if all five rows are dead it is the record of row 4.  The update never fails and leaves
  the aliens as they are.
\<close>

theorem first_line_is_front_rank:
  assumes "length (alien_array g) = 50" and "length (first_line_array g) = 10"
  shows "\<exists>g'. update_first_line g = Inr g' \<and> alien_array g' = alien_array g \<and>
     (\<forall>c<10. \<forall>r<5.
        a_type (alien_array g ! (c + 10 * r)) \<noteq> ALIEN_DEAD \<and>
        (\<forall>q<r. a_type (alien_array g ! (c + 10 * q)) = ALIEN_DEAD)
          \<longrightarrow> first_line_array g' ! c = alien_array g ! (c + 10 * r)) \<and>
     (\<forall>c<10. (\<forall>r<5. a_type (alien_array g ! (c + 10 * r)) = ALIEN_DEAD)
          \<longrightarrow> first_line_array g' ! c = alien_array g ! (c + 10 * 4))"
proof -
  from update_first_line_eq[OF assms] obtain g' where
    g': "update_first_line g = Inr g'" "alien_array g' = alien_array g"
    and f: "\<forall>c<10. first_line_array g' ! c = front_rank (alien_array g) c"
    by blast
  have first: "front_rank (alien_array g) c = alien_array g ! (c + 10 * r)"
    if "r < 5" "a_type (alien_array g ! (c + 10 * r)) \<noteq> ALIEN_DEAD"
       "\<forall>q<r. a_type (alien_array g ! (c + 10 * q)) = ALIEN_DEAD" for c r
  proof -
    from that(1) consider "r = 0" | "r = 1" | "r = 2" | "r = 3" | "r = 4" by linarith
    then show ?thesis
    proof cases
      case 1
      with that show ?thesis by (simp add: front_rank_def)
    next
      case 2
      with that(2) that(3)[rule_format, of 0] show ?thesis by (simp add: front_rank_def)
    next
      case 3
      with that(2) that(3)[rule_format, of 0] that(3)[rule_format, of 1] show ?thesis
        by (simp add: front_rank_def)
    next
      case 4
      with that(2) that(3)[rule_format, of 0] that(3)[rule_format, of 1] that(3)[rule_format, of 2]
      show ?thesis by (simp add: front_rank_def)
    next
      case 5
      with that(2) that(3)[rule_format, of 0] that(3)[rule_format, of 1] that(3)[rule_format, of 2]
        that(3)[rule_format, of 3]
      show ?thesis by (simp add: front_rank_def)
    qed
  qed
  have none: "front_rank (alien_array g) c = alien_array g ! (c + 10 * 4)"
    if "\<forall>r<5. a_type (alien_array g ! (c + 10 * r)) = ALIEN_DEAD" for c
    using that[rule_format, of 0] that[rule_format, of 1] that[rule_format, of 2]
      that[rule_format, of 3]
    by (simp add: front_rank_def)
  show ?thesis
    using g' f first none by (intro exI[of _ g']) simp
qed


lemma thinned_aliens:
  "k < 50 \<Longrightarrow> alien_array thinned_game ! k =
     (if k \<in> {4, 14, 24, 7, 17, 27, 37, 47}
      then (formation_alien k)\<lparr>a_type := ALIEN_DEAD\<rparr> else formation_alien k)"
  by (simp add: thinned_game_def firing_squad_def del: upt_Suc)

theorem first_line_is_front_rank_witness:
  "length (alien_array thinned_game) = 50 \<and> length (first_line_array thinned_game) = 10 \<and>
   (case update_first_line thinned_game of
      Inl e \<Rightarrow> False
    | Inr g' \<Rightarrow> first_line_array g' ! 4 = formation_alien 34 \<and>
                first_line_array g' ! 7 = (formation_alien 47)\<lparr>a_type := ALIEN_DEAD\<rparr>)"
proof -
  have l: "length (alien_array thinned_game) = 50" "length (first_line_array thinned_game) = 10"
    by (simp_all add: thinned_game_def firing_squad_def)
  from first_line_is_front_rank[OF l] obtain g' where
    g': "update_first_line thinned_game = Inr g'"
    and alive: "\<forall>c<10. \<forall>r<5.
        a_type (alien_array thinned_game ! (c + 10 * r)) \<noteq> ALIEN_DEAD \<and>
        (\<forall>q<r. a_type (alien_array thinned_game ! (c + 10 * q)) = ALIEN_DEAD)
          \<longrightarrow> first_line_array g' ! c = alien_array thinned_game ! (c + 10 * r)"
    and dead: "\<forall>c<10. (\<forall>r<5. a_type (alien_array thinned_game ! (c + 10 * r)) = ALIEN_DEAD)
          \<longrightarrow> first_line_array g' ! c = alien_array thinned_game ! (c + 10 * 4)"
    by blast
  have "a_type (alien_array thinned_game ! (4 + 10 * q)) = ALIEN_DEAD" if "q < 3" for q
  proof -
    from that consider "q = 0" | "q = 1" | "q = 2" by linarith
    then show ?thesis by cases (simp_all add: thinned_aliens)
  qed
  moreover have "a_type (alien_array thinned_game ! (4 + 10 * 3)) \<noteq> ALIEN_DEAD"
    by (simp add: thinned_aliens formation_alien_def ALIEN_DEAD_def ALIEN_TYPE_B_def)
  ultimately have "first_line_array g' ! 4 = alien_array thinned_game ! (4 + 10 * 3)"
    using alive[rule_format, of 4 3] by simp
  then have a: "first_line_array g' ! 4 = formation_alien 34"
    by (simp add: thinned_aliens)
  have "a_type (alien_array thinned_game ! (7 + 10 * r)) = ALIEN_DEAD" if "r < 5" for r
  proof -
    from that consider "r = 0" | "r = 1" | "r = 2" | "r = 3" | "r = 4" by linarith
    then show ?thesis by cases (simp_all add: thinned_aliens)
  qed
  then have "first_line_array g' ! 7 = alien_array thinned_game ! (7 + 10 * 4)"
    using dead[rule_format, of 7] by simp
  then have b: "first_line_array g' ! 7 = (formation_alien 47)\<lparr>a_type := ALIEN_DEAD\<rparr>"
    by (simp add: thinned_aliens)
  from l g' a b show ?thesis by simp
qed


subsection \<open>The death countdown\<close>

lemma handle_deaths_eq:
  assumes "length (alien_array (game w)) = 50" and "length (death_counter w) = 50"
    and "alien_hoard_size (game w) = 50"
  shows "handle_deaths w = Inr (w\<lparr>death_counter :=
      map (\<lambda>k. if a_type (alien_array (game w) ! k) = ALIEN_DEAD \<and> death_counter w ! k \<noteq> 0
                then death_counter w ! k - 1 else death_counter w ! k) [0..<50]\<rparr>)"
proof -
  let ?new = "\<lambda>k. if a_type (alien_array (game w) ! k) = ALIEN_DEAD \<and> death_counter w ! k \<noteq> 0
                then death_counter w ! k - 1 else death_counter w ! k"
  let ?P = "\<lambda>i (t::World). game t = game w \<and> alien_animation t = alien_animation w \<and>
      score t = score w \<and> aliens_killed t = aliens_killed w \<and>
      length (death_counter t) = 50 \<and>
      (\<forall>k<50. death_counter t ! k = (if k < i then ?new k else death_counter w ! k))"
  have "\<exists>w'. for_each handle_death [0..<50] w = Inr w' \<and> ?P 50 w'"
  proof (rule for_each_total[where P = ?P])
    show "?P 0 w" using assms by simp
  next
    fix i and t :: World
    assume i: "i < 50" and P: "?P i t"
    from P have g: "game t = game w" by simp
    from P have ti: "death_counter t ! i = death_counter w ! i" using i by simp
    show "\<exists>t'. handle_death i t = Inr t' \<and> ?P (Suc i) t'"
    proof (cases "a_type (alien_array (game w) ! i) = ALIEN_DEAD \<and> death_counter w ! i \<noteq> 0")
      case True
      then have "handle_death i t = Inr (t\<lparr>death_counter := (death_counter t)[i := death_counter w ! i - 1]\<rparr>)"
        using P i assms(1) g ti by (simp add: handle_death_def)
      moreover have "?P (Suc i) (t\<lparr>death_counter := (death_counter t)[i := death_counter w ! i - 1]\<rparr>)"
        using P i True by (simp add: nth_list_update less_Suc_eq)
      ultimately show ?thesis by blast
    next
      case False
      then have "handle_death i t = Inr t"
        using P i assms(1) g ti by (auto simp: handle_death_def)
      moreover have "?P (Suc i) t"
        using P i False by (auto simp: less_Suc_eq)
      ultimately show ?thesis by blast
    qed
  qed
  then obtain w' where w': "for_each handle_death [0..<50] w = Inr w'" and P: "?P 50 w'"
    by blast
  have "death_counter w' = map ?new [0..<50]"
    using P by (intro nth_equalityI) (simp_all del: upt_Suc)
  then have "w' = w\<lparr>death_counter := map ?new [0..<50]\<rparr>"
    using P by (intro World.equality) simp_all
  with w' show ?thesis
    using assms(3) by (simp add: handle_deaths_def)
qed

lemma corpses_kept_refl: "corpses_kept w w"
  by (simp add: corpses_kept_def)

lemma corpses_kept_trans: "corpses_kept w v \<Longrightarrow> corpses_kept v u \<Longrightarrow> corpses_kept w u"
  by (simp add: corpses_kept_def)

lemma hit_alien_keeps:
  assumes "hit_alien i j sp w = Inr w'" and "a_type (alien_array (game w) ! j) \<noteq> ALIEN_DEAD"
  shows "corpses_kept w w'"
proof -
  define a' where "a' = (alien_array (game w) ! j)\<lparr>a_type := ALIEN_DEAD,
      a_x := a_x (alien_array (game w) ! j) - (s_width alien_death_sprite - s_width sp) div 2\<rparr>"
  define g1 where "g1 = (game w)\<lparr>alien_array := (alien_array (game w))[j := a']\<rparr>"
  from assms(1) obtain g' where g': "remove_rocket i g1 = Inr g'"
    and w': "w' = w\<lparr>score := score w + 10 * (4 - ucast (a_type (alien_array (game w) ! j))),
                    aliens_killed := aliens_killed w + 1, game := g'\<rparr>"
    by (auto simp: hit_alien_def Let_def g1_def a'_def split: sum.splits)
  from remove_rocket_frame[OF g'] have "alien_array g' = (alien_array (game w))[j := a']"
    by (simp add: g1_def)
  moreover have "(alien_array (game w))[j := a'] ! k = alien_array (game w) ! k"
    if "a_type (alien_array (game w) ! k) = ALIEN_DEAD" for k
  proof -
    from that assms(2) have "j \<noteq> k" by auto
    then show ?thesis by simp
  qed
  ultimately show ?thesis
    unfolding corpses_kept_def w' by simp
qed

lemma check_alien_keeps:
  assumes "check_alien i j w = Inr w'"
  shows "corpses_kept w w'"
  using assms
  by (auto simp: check_alien_def Let_def corpses_kept_refl split: if_splits sum.splits
      intro: hit_alien_keeps)

lemma check_aliens_keeps:
  assumes "check_aliens i w = Inr w'"
  shows "corpses_kept w w'"
  using assms unfolding check_aliens_def
  by (rule for_each_invariant[where P = "corpses_kept w"])
    (auto intro: corpses_kept_refl corpses_kept_trans check_alien_keeps)

lemma check_player_keeps:
  assumes "check_player i w = Inr w'"
  shows "corpses_kept w w'"
  using assms
  by (auto simp: check_player_def Let_def corpses_kept_def split: if_splits)

lemma rocket_step_keeps:
  assumes "rocket_step i w = Inr w'"
  shows "corpses_kept w w'"
proof -
  define g1 where "g1 = (game w)\<lparr>rockets := (rockets (game w))
      [i := (rockets (game w) ! i)\<lparr>r_y := r_y (rockets (game w) ! i) + dir (rockets (game w) ! i)\<rparr>]\<rparr>"
  have k1: "corpses_kept w (w\<lparr>game := g1\<rparr>)"
    by (simp add: corpses_kept_def g1_def)
  from assms consider
      g2 where "remove_rocket i g1 = Inr g2" "w' = w\<lparr>game := g2\<rparr>"
    | w2 where "check_aliens i (w\<lparr>game := g1\<rparr>) = Inr w2" "check_player i w2 = Inr w'"
    by (auto simp: rocket_step_def Let_def g1_def split: if_splits sum.splits)
  then show ?thesis
  proof cases
    case 1
    then show ?thesis
      using remove_rocket_frame[OF 1(1)] by (simp add: corpses_kept_def g1_def)
  next
    case 2
    then show ?thesis
      using k1 check_aliens_keeps check_player_keeps corpses_kept_trans by blast
  qed
qed

lemma rocket_loop_keeps:
  assumes "rocket_loop i w = Inr w'"
  shows "corpses_kept w w'"
  using assms
proof (induction i w rule: rocket_loop.induct)
  case (1 i w)
  note unfold = rocket_loop.simps[of i w]
  show ?case
  proof (cases "i < unat (num_rockets (game w))")
    case True
    show ?thesis
    proof (cases "rocket_step i w")
      case (Inl e)
      with True "1.prems" show ?thesis by (simp add: unfold split: if_splits)
    next
      case (Inr w1)
      with True "1.prems" have b: "\<not> GAME_MAX_ROCKETS \<le> i" and l: "rocket_loop (i + 1) w1 = Inr w'"
        by (simp_all add: unfold split: if_splits)
      from "1.IH"[OF True b Inr l] rocket_step_keeps[OF Inr] show ?thesis
        using corpses_kept_trans by blast
    qed
  next
    case False
    with "1.prems" show ?thesis by (simp add: unfold corpses_kept_refl)
  qed
qed

lemma alien_fire_aliens:
  assumes "alien_fire rnd g = Inr g'"
  shows "alien_array g' = alien_array g"
  using assms by (auto simp: alien_fire_def Let_def split: if_splits)

lemma player_fire_aliens:
  assumes "player_fire fired g = Inr g'"
  shows "alien_array g' = alien_array g"
  using assms by (auto simp: player_fire_def Let_def split: if_splits)

text \<open>What one iteration does to the death counters and to the aliens that are dead.\<close>

lemma tick_countdown:
  assumes "game_inv w" and "tick inp w = Inr w'" and "k < 50"
  shows "death_counter w' ! k =
           (if a_type (alien_array (game w) ! k) = ALIEN_DEAD \<and> death_counter w ! k \<noteq> 0
            then death_counter w ! k - 1 else death_counter w ! k)"
    and "a_type (alien_array (game w) ! k) = ALIEN_DEAD \<Longrightarrow>
           alien_array (game w') ! k = alien_array (game w) ! k"
proof -
  from assms(2) obtain anims w1 w2 g4 g5 g6 where
    s1: "for_each advance_animation [0..<2] (alien_animation w) = Inr anims" and
    s2: "handle_deaths (w\<lparr>alien_animation := anims\<rparr>) = Inr w1" and
    s3: "rocket_loop 0 w1 = Inr w2" and
    s4: "update_first_line (game (player_move (move_dir inp) w2)) = Inr g4" and
    s5: "alien_fire (rand_value inp) g4 = Inr g5" and
    s6: "player_fire (rocket_fired inp) g5 = Inr g6" and
    w': "w' = (player_move (move_dir inp) w2)\<lparr>game := g6\<rparr>"
    by (rule tick_stages)
  have l: "length (alien_array (game w)) = 50" "length (death_counter w) = 50"
    "alien_hoard_size (game w) = 50"
    using assms(1) by (simp_all add: game_inv_def allocated_def)
  have "handle_deaths (w\<lparr>alien_animation := anims\<rparr>) = Inr (w\<lparr>alien_animation := anims,
     death_counter := map (\<lambda>k. if a_type (alien_array (game w) ! k) = ALIEN_DEAD \<and> death_counter w ! k \<noteq> 0
                then death_counter w ! k - 1 else death_counter w ! k) [0..<50]\<rparr>)"
    using handle_deaths_eq[of "w\<lparr>alien_animation := anims\<rparr>"] l by simp
  with s2 have w1: "w1 = w\<lparr>alien_animation := anims,
     death_counter := map (\<lambda>k. if a_type (alien_array (game w) ! k) = ALIEN_DEAD \<and> death_counter w ! k \<noteq> 0
                then death_counter w ! k - 1 else death_counter w ! k) [0..<50]\<rparr>"
    by simp
  have k2: "corpses_kept w1 w2" using s3 by (rule rocket_loop_keeps)
  obtain x where m: "player_move (move_dir inp) w2 =
      w2\<lparr>game := (game w2)\<lparr>player := (player (game w2))\<lparr>p_x := x\<rparr>\<rparr>\<rparr>"
    using player_move_frame by blast
  obtain fl where g4: "g4 = (game (player_move (move_dir inp) w2))\<lparr>first_line_array := fl\<rparr>"
    using update_first_line_frame[OF s4] by blast
  have a: "alien_array (game w') = alien_array (game w2)"
    unfolding w' using alien_fire_aliens[OF s5] player_fire_aliens[OF s6] g4 m by simp
  have d: "death_counter w' = death_counter w2"
    unfolding w' using m by simp
  show "death_counter w' ! k =
           (if a_type (alien_array (game w) ! k) = ALIEN_DEAD \<and> death_counter w ! k \<noteq> 0
            then death_counter w ! k - 1 else death_counter w ! k)"
    using d k2 assms(3) unfolding corpses_kept_def w1 by (simp del: upt_Suc)
  show "alien_array (game w') ! k = alien_array (game w) ! k"
    if "a_type (alien_array (game w) ! k) = ALIEN_DEAD"
    using a k2 that unfolding corpses_kept_def w1 by simp
qed


lemma run_inv:
  assumes "game_inv w" and "run ins w = Inr w'"
  shows "game_inv w'"
  using assms
proof (induction ins arbitrary: w)
  case Nil
  then show ?case by simp
next
  case (Cons inp ins)
  from Cons.prems(2) obtain w1 where "tick inp w = Inr w1" "run ins w1 = Inr w'"
    by (auto split: sum.splits)
  then show ?case using Cons.IH tick_inv[OF Cons.prems(1)] by blast
qed

lemma run_countdown:
  assumes "game_inv w" and "run ins w = Inr w'" and "k < 50"
    and "a_type (alien_array (game w) ! k) = ALIEN_DEAD"
  shows "unat (death_counter w' ! k) = unat (death_counter w ! k) - length ins \<and>
         alien_array (game w') ! k = alien_array (game w) ! k"
  using assms
proof (induction ins arbitrary: w)
  case Nil
  then show ?case by simp
next
  case (Cons inp ins)
  from Cons.prems(2) obtain w1 where t: "tick inp w = Inr w1" and r: "run ins w1 = Inr w'"
    by (auto split: sum.splits)
  have i1: "game_inv w1" using tick_inv[OF Cons.prems(1) t] .
  have a1: "alien_array (game w1) ! k = alien_array (game w) ! k"
    using tick_countdown(2)[OF Cons.prems(1) t Cons.prems(3)] Cons.prems(4) by simp
  have d1: "unat (death_counter w1 ! k) = unat (death_counter w ! k) - 1"
  proof (cases "death_counter w ! k = 0")
    case True
    then show ?thesis
      using tick_countdown(1)[OF Cons.prems(1) t Cons.prems(3)] by simp
  next
    case False
    then have "death_counter w1 ! k = death_counter w ! k - 1"
      using tick_countdown(1)[OF Cons.prems(1) t Cons.prems(3)] Cons.prems(4) by simp
    then show ?thesis using False by (simp add: unat_minus_one)
  qed
  from Cons.IH[OF i1 r Cons.prems(3)] a1 Cons.prems(4) d1 show ?case by simp
qed

text \<open>
  Claim C8.  Let alien slot \<open>k\<close> be alive before an iteration and dead after it (state
  \<open>w\<close>, the end of tick T).  After \<open>n\<close> further iterations, whatever their inputs, its
  death counter is \<open>10 - n\<close>, stopping at 0 and never wrapping below it; the draw loop
  blits the death sprite at the alien's position in the states after \<open>n = 0, \<dots>, 9\<close>
  further iterations (ticks T to T+9) and nothing from then on; and the alien's record
  stays as the hit left it.
\<close>

theorem death_countdown:
  assumes "game_inv w0" and "tick inp w0 = Inr w" and "k < 50"
    and "a_type (alien_array (game w0) ! k) \<noteq> ALIEN_DEAD"
    and "a_type (alien_array (game w) ! k) = ALIEN_DEAD"
    and "run ins w = Inr w'"
  shows "unat (death_counter w' ! k) = 10 - length ins \<and>
         alien_array (game w') ! k = alien_array (game w) ! k \<and>
         alien_drawn w' k =
           (if length ins < 10
            then Inr (Some (alien_death_sprite, a_x (alien_array (game w) ! k),
                            a_y (alien_array (game w) ! k)))
            else Inr None)"
proof -
  have "death_counter w0 ! k = 10"
    using assms(1,3,4) by (simp add: game_inv_def list_all_iff)
  then have d: "death_counter w ! k = 10"
    using tick_countdown(1)[OF assms(1,2,3)] assms(4) by simp
  have i: "game_inv w" using tick_inv[OF assms(1,2)] .
  from run_countdown[OF i assms(6,3,5)] d
  have c: "unat (death_counter w' ! k) = 10 - length ins"
    and a: "alien_array (game w') ! k = alien_array (game w) ! k"
    by simp_all
  have "game_inv w'" using run_inv[OF i assms(6)] .
  then have l: "length (death_counter w') = 50" "length (alien_array (game w')) = 50"
    by (simp_all add: game_inv_def allocated_def)
  have z: "(death_counter w' ! k = 0) = (\<not> length ins < 10)"
    using c by (auto simp: unat_eq_0[symmetric] simp del: unat_eq_0)
  show ?thesis
    using c a l z assms(3,5) by (simp add: alien_drawn_def Let_def)
qed

lemma approaching_world_inv: "game_inv approaching_world"
  by code_simp

lemma approaching_world_run:
  "(case tick idle approaching_world of
      Inl e \<Rightarrow> False
    | Inr w \<Rightarrow> a_type (alien_array (game w) ! 5) = ALIEN_DEAD \<and>
               a_x (alien_array (game w) ! 5) = 159 \<and> a_y (alien_array (game w) ! 5) = 250 \<and>
               (case run [idle, idle, idle] w of Inl e \<Rightarrow> False | Inr w' \<Rightarrow> True))"
  by code_simp


theorem death_countdown_witness:
  "game_inv approaching_world \<and>
   a_type (alien_array (game approaching_world) ! 5) \<noteq> ALIEN_DEAD \<and>
   (case tick idle approaching_world of
      Inl e \<Rightarrow> False
    | Inr w \<Rightarrow> a_type (alien_array (game w) ! 5) = ALIEN_DEAD \<and>
               (case run [idle, idle, idle] w of
                  Inl e \<Rightarrow> False
                | Inr w' \<Rightarrow> unat (death_counter w' ! 5) = 7 \<and>
                            alien_drawn w' 5 = Inr (Some (alien_death_sprite, 159, 250))))"
proof -
  have alive: "a_type (alien_array (game approaching_world) ! 5) \<noteq> ALIEN_DEAD"
    by code_simp
  from approaching_world_run obtain w w' where
    t: "tick idle approaching_world = Inr w"
    and dead: "a_type (alien_array (game w) ! 5) = ALIEN_DEAD"
    and pos: "a_x (alien_array (game w) ! 5) = 159" "a_y (alien_array (game w) ! 5) = 250"
    and r: "run [idle, idle, idle] w = Inr w'"
    by (auto split: sum.splits)
  from death_countdown[OF approaching_world_inv t _ alive dead r] pos
  have "unat (death_counter w' ! 5) = 7"
    "alien_drawn w' 5 = Inr (Some (alien_death_sprite, 159, 250))"
    by simp_all
  with approaching_world_inv alive t dead r show ?thesis by simp
qed


subsection \<open>Resolution of a hit\<close>

lemma formation_type:
  "a_type (formation_alien k) = 1 \<or> a_type (formation_alien k) = 2"
  by (simp add: formation_alien_def ALIEN_TYPE_A_def ALIEN_TYPE_B_def)

lemma alien_frame_live:
  assumes "animations_ok (alien_animation w)" and "a_type a = 1 \<or> a_type a = 2"
  shows "\<exists>sp. alien_frame w a = Inr sp \<and> s_height sp = 8 \<and>
     (if a_type a = 1 then sp \<in> {alien_sprite_0, alien_sprite_1} \<and> s_width sp = 11
      else sp \<in> {alien_sprite_2, alien_sprite_3} \<and> s_width sp = 8)"
proof -
  from assms(1) obtain p q where pq: "alien_animation w = [p, q]"
    by (auto simp: animations_ok_def length_Suc_conv numeral_2_eq_2)
  have f: "frames p = [alien_sprite_0, alien_sprite_1]" "frames q = [alien_sprite_2, alien_sprite_3]"
    "frame_duration p = 10" "frame_duration q = 10" "time p < 20" "time q < 20"
    using assms(1) by (simp_all add: animations_ok_def pq)
  have d: "unat (t div 10) = 0 \<or> unat (t div 10) = 1" if "t < 20" for t :: u32
  proof -
    from that have "unat t < 20" by (simp add: word_less_nat_alt)
    then have "unat t div 10 = 0 \<or> unat t div 10 = 1" by linarith
    then show ?thesis by (simp add: unat_div)
  qed
  from assms(2) show ?thesis
  proof
    assume t: "a_type a = 1"
    with d[OF f(5)] show ?thesis
      by (auto simp: alien_frame_def pq f Let_def)
  next
    assume t: "a_type a = 2"
    with d[OF f(6)] show ?thesis
      by (auto simp: alien_frame_def pq f Let_def)
  qed
qed

text \<open>
  Claim C2.  Whenever the rocket in a live slot \<open>i\<close> overlaps an alien \<open>j\<close> that is not
  dead (its type \<open>t\<close> is then 1 or 2), the test of that alien adds \<open>10 * (4 - t)\<close> to the
  score, adds 1 to the kill counter, sets the alien's type to Dead, moves its \<open>x\<close> left by
  half the difference between the width of the death sprite and that of the sprite of
  its current animation frame, and removes the rocket: the last live rocket is copied
  into slot \<open>i\<close> and the count of live rockets drops by exactly 1.
\<close>

theorem rocket_hit_resolution:
  assumes "game_inv w" and "i < unat (num_rockets (game w))" and "j < 50"
    and "a_type (alien_array (game w) ! j) \<noteq> ALIEN_DEAD"
    and "alien_frame w (alien_array (game w) ! j) = Inr live_sprite"
    and "sprite_overlap_check rocket_sprite (r_x (rockets (game w) ! i)) (r_y (rockets (game w) ! i))
           live_sprite (a_x (alien_array (game w) ! j)) (a_y (alien_array (game w) ! j))"
  shows "\<exists>w'. check_alien i j w = Inr w' \<and>
     a_type (alien_array (game w) ! j) \<in> {1, 2} \<and>
     score w' = score w + 10 * (4 - ucast (a_type (alien_array (game w) ! j))) \<and>
     aliens_killed w' = aliens_killed w + 1 \<and>
     a_type (alien_array (game w') ! j) = ALIEN_DEAD \<and>
     a_x (alien_array (game w') ! j) =
       a_x (alien_array (game w) ! j) - (s_width alien_death_sprite - s_width live_sprite) div 2 \<and>
     a_y (alien_array (game w') ! j) = a_y (alien_array (game w) ! j) \<and>
     rockets (game w') = (rockets (game w))[i := rockets (game w) ! (unat (num_rockets (game w)) - 1)] \<and>
     num_rockets (game w') = num_rockets (game w) - 1 \<and>
     unat (num_rockets (game w')) = unat (num_rockets (game w)) - 1"
proof -
  have l: "length (alien_array (game w)) = 50" "length (rockets (game w)) = 128"
    and n: "unat (num_rockets (game w)) \<le> 128"
    using assms(1) by (simp_all add: game_inv_def allocated_def GAME_MAX_ROCKETS_def)
  have "alien_array (game w) ! j = formation_alien j"
    using assms(1,3,4) by (simp add: game_inv_def list_all_iff)
  then have t: "a_type (alien_array (game w) ! j) \<in> {1, 2}"
    using formation_type[of j] by auto
  from assms(2) have nz: "num_rockets (game w) \<noteq> 0"
    by (auto simp: unat_eq_0[symmetric] simp del: unat_eq_0)
  then have m: "unat (num_rockets (game w) - 1) = unat (num_rockets (game w)) - 1"
    by (simp add: unat_minus_one)
  have i: "i < 128" using assms(2) n by simp
  have last: "unat (num_rockets (game w)) - 1 < 128" using n assms(2) by simp
  show ?thesis
    using assms(3,4,5,6) l m i last t
    by (simp add: check_alien_def hit_alien_def remove_rocket_def Let_def)
qed


lemma striking_world_facts:
  "game_inv striking_world"
  "a_type (alien_array (game striking_world) ! 5) = 1"
  "alien_frame striking_world (alien_array (game striking_world) ! 5) = Inr alien_sprite_0"
  "sprite_overlap_check rocket_sprite (r_x (rockets (game striking_world) ! 0))
     (r_y (rockets (game striking_world) ! 0)) alien_sprite_0
     (a_x (alien_array (game striking_world) ! 5)) (a_y (alien_array (game striking_world) ! 5))"
  "a_x (alien_array (game striking_world) ! 5) = 160"
  "score striking_world = 0" "aliens_killed striking_world = 0"
  "num_rockets (game striking_world) = 1"
  by code_simp+

theorem rocket_hit_resolution_witness:
  "game_inv striking_world \<and>
   a_type (alien_array (game striking_world) ! 5) = 1 \<and>
   (case check_alien 0 5 striking_world of
      Inl e \<Rightarrow> False
    | Inr w' \<Rightarrow> score w' = 30 \<and> aliens_killed w' = 1 \<and>
                a_type (alien_array (game w') ! 5) = ALIEN_DEAD \<and>
                a_x (alien_array (game w') ! 5) = 159 \<and>
                num_rockets (game w') = 0)"
proof -
  note f = striking_world_facts
  have alive: "a_type (alien_array (game striking_world) ! 5) \<noteq> ALIEN_DEAD"
    using f(2) by (simp add: ALIEN_DEAD_def)
  have i: "0 < unat (num_rockets (game striking_world))"
    using f(8) by simp
  from rocket_hit_resolution[OF f(1) i _ alive f(3) f(4)] obtain w' where
    "check_alien 0 5 striking_world = Inr w'"
    "score w' = score striking_world + 10 * (4 - ucast (a_type (alien_array (game striking_world) ! 5)))"
    "aliens_killed w' = aliens_killed striking_world + 1"
    "a_type (alien_array (game w') ! 5) = ALIEN_DEAD"
    "a_x (alien_array (game w') ! 5) =
       a_x (alien_array (game striking_world) ! 5) - (s_width alien_death_sprite - s_width alien_sprite_0) div 2"
    "num_rockets (game w') = num_rockets (game striking_world) - 1"
    by auto
  then show ?thesis
    using f by simp
qed


subsection \<open>One alien per rocket\<close>

lemma formation_x: "c < 10 \<Longrightarrow> unat (30 + 26 * of_nat c :: u32) = 30 + 26 * c"
  by (rule of_nat_inverse) simp_all

lemma formation_y: "r < 5 \<Longrightarrow> unat (250 + 23 * of_nat r :: u32) = 250 + 23 * r"
  by (rule of_nat_inverse) simp_all

text \<open>A rocket that overlaps an alien of the formation lies in a window around it.\<close>

lemma overlap_window:
  fixes x y ax ay w h :: u32
  assumes "x < ax + w" and "x + 2 > ax" and "y < ay + h" and "y + 5 > ay"
    and "30 \<le> unat ax" "unat ax < 1000" "unat w \<le> 11"
    and "30 \<le> unat ay" "unat ay < 1000" "unat h \<le> 8"
  shows "unat ax < unat x + 2 \<and> unat x < unat ax + 11 \<and>
         unat ay < unat y + 5 \<and> unat y < unat ay + 8"
proof -
  have 1: "unat (ax + w) = unat ax + unat w" using assms(6,7) by (simp add: unat_word_ariths)
  have 2: "unat (ay + h) = unat ay + unat h" using assms(9,10) by (simp add: unat_word_ariths)
  have 3: "unat ax < unat x + 2"
  proof -
    have "unat (x + 2) \<le> unat x + 2" by (simp add: unat_word_ariths) 
    moreover have "unat ax < unat (x + 2)" using assms(2) by (simp add: word_less_nat_alt)
    ultimately show ?thesis by simp
  qed
  have 4: "unat ay < unat y + 5"
  proof -
    have "unat (y + 5) \<le> unat y + 5" by (simp add: unat_word_ariths) 
    moreover have "unat ay < unat (y + 5)" using assms(4) by (simp add: word_less_nat_alt)
    ultimately show ?thesis by simp
  qed
  from assms(1) 1 assms(7) have 5: "unat x < unat ax + 11" by (simp add: word_less_nat_alt)
  from assms(3) 2 assms(10) have 6: "unat y < unat ay + 8" by (simp add: word_less_nat_alt)
  from 3 4 5 6 show ?thesis by simp
qed

lemma hit_window:
  assumes "animations_ok (alien_animation w)" and "k < 50"
    and "rocket_hits w r (formation_alien k)"
  shows "30 + 26 * (k mod 10) < unat (r_x r) + 2 \<and> unat (r_x r) < 30 + 26 * (k mod 10) + 11 \<and>
         250 + 23 * (k div 10) < unat (r_y r) + 5 \<and> unat (r_y r) < 250 + 23 * (k div 10) + 8"
proof -
  from alien_frame_live[OF assms(1) formation_type[of k]] obtain sp where
    sp: "alien_frame w (formation_alien k) = Inr sp" "s_height sp = 8"
    "s_width sp = 11 \<or> s_width sp = 8"
    by (auto split: if_splits)
  have c: "k mod 10 < 10" and r: "k div 10 < 5" using assms(2) by auto
  have o: "sprite_overlap_check rocket_sprite (r_x r) (r_y r) sp
     (30 + 26 * of_nat (k mod 10)) (250 + 23 * of_nat (k div 10))"
    using assms(3) sp(1) by (simp add: rocket_hits_def formation_alien_def)
  have ws: "unat (s_width sp) \<le> 11" using sp(3) by auto
  have hs: "unat (s_height sp) \<le> 8" using sp(2) by simp
  from o have
    "r_x r < (30 + 26 * of_nat (k mod 10)) + s_width sp"
    "r_x r + 2 > 30 + 26 * of_nat (k mod 10)"
    "r_y r < (250 + 23 * of_nat (k div 10)) + s_height sp"
    "r_y r + 5 > 250 + 23 * of_nat (k div 10)"
    by (simp_all add: sprite_overlap_check_def split: if_splits)
  from overlap_window[OF this _ _ ws _ _ hs] show ?thesis
    using c r by (simp add: formation_x formation_y)
qed

lemma one_alien_in_reach:
  assumes "animations_ok (alien_animation w)" and "k < 50" and "k' < 50"
    and "rocket_hits w r (formation_alien k)" and "rocket_hits w r (formation_alien k')"
  shows "k = k'"
proof -
  from hit_window[OF assms(1,2,4)] hit_window[OF assms(1,3,5)]
  have "k mod 10 = k' mod 10" "k div 10 = k' div 10" by linarith+
  then show ?thesis by (metis div_mult_mod_eq)
qed


lemma rocket_hits_animation:
  "alien_animation v = alien_animation w \<Longrightarrow> rocket_hits v r a = rocket_hits w r a"
  by (simp add: rocket_hits_def alien_frame_def)

lemma check_alien_dead:
  assumes "j < length (alien_array (game v))" and "a_type (alien_array (game v) ! j) = ALIEN_DEAD"
  shows "check_alien i j v = Inr v"
  using assms by (simp add: check_alien_def)

lemma check_alien_miss:
  assumes "j < length (alien_array (game v))" and "i < length (rockets (game v))"
    and "animations_ok (alien_animation v)"
    and "a_type (alien_array (game v) ! j) = 1 \<or> a_type (alien_array (game v) ! j) = 2"
    and "\<not> rocket_hits v (rockets (game v) ! i) (alien_array (game v) ! j)"
  shows "check_alien i j v = Inr v"
proof -
  from alien_frame_live[OF assms(3,4)] obtain sp where
    "alien_frame v (alien_array (game v) ! j) = Inr sp" by blast
  then show ?thesis
    using assms(1,2,5) by (auto simp: check_alien_def rocket_hits_def Let_def)
qed

lemma check_alien_hit:
  assumes "j < length (alien_array (game v))" and "i < length (rockets (game v))"
    and "animations_ok (alien_animation v)"
    and "a_type (alien_array (game v) ! j) = 1 \<or> a_type (alien_array (game v) ! j) = 2"
    and "rocket_hits v (rockets (game v) ! i) (alien_array (game v) ! j)"
    and "num_rockets (game v) \<noteq> 0" and "unat (num_rockets (game v)) \<le> length (rockets (game v))"
  shows "\<exists>a' sc kl. a_type a' = ALIEN_DEAD \<and>
     check_alien i j v = Inr (v\<lparr>score := sc, aliens_killed := kl,
       game := (game v)\<lparr>alien_array := (alien_array (game v))[j := a'],
                        rockets := (rockets (game v))[i := rockets (game v) ! (unat (num_rockets (game v)) - 1)],
                        num_rockets := num_rockets (game v) - 1\<rparr>\<rparr>)"
proof -
  from alien_frame_live[OF assms(3,4)] obtain sp where
    sp: "alien_frame v (alien_array (game v) ! j) = Inr sp" by blast
  have alive: "a_type (alien_array (game v) ! j) \<noteq> ALIEN_DEAD"
    using assms(4) by (auto simp: ALIEN_DEAD_def)
  have m: "unat (num_rockets (game v) - 1) = unat (num_rockets (game v)) - 1"
    using assms(6) by (simp add: unat_minus_one)
  have nz: "0 < unat (num_rockets (game v))"
    using assms(6) by (simp add: unat_gt_0)
  have last: "unat (num_rockets (game v)) - 1 < length (rockets (game v))"
    using assms(7) nz by simp
  have o: "sprite_overlap_check rocket_sprite (r_x (rockets (game v) ! i)) (r_y (rockets (game v) ! i))
      sp (a_x (alien_array (game v) ! j)) (a_y (alien_array (game v) ! j))"
    using assms(5) sp by (simp add: rocket_hits_def)
  show ?thesis
    apply (rule exI[of _ "(alien_array (game v) ! j)\<lparr>a_type := ALIEN_DEAD,
        a_x := a_x (alien_array (game v) ! j) - (s_width alien_death_sprite - s_width sp) div 2\<rparr>"])
    apply (rule exI[of _ "score v + 10 * (4 - ucast (a_type (alien_array (game v) ! j)))"])
    apply (rule exI[of _ "aliens_killed v + 1"])
    using assms(1,2) alive sp o m last
    apply (simp add: check_alien_def hit_alien_def remove_rocket_def Let_def)
    done
qed


lemma scan_inv_start:
  assumes "game_inv w" and "i < unat (num_rockets (game w))"
  shows "scan_inv w i j 0 w"
  using assms by (simp add: scan_inv_def game_inv_def allocated_def GAME_MAX_ROCKETS_def)

lemma scan_inv_advance:
  assumes "scan_inv w i j j' v" and "j' \<noteq> j"
  shows "scan_inv w i j (Suc j') v"
proof -
  have 5: "\<forall>k<50. alien_array (game v) ! k = alien_array (game w) ! k \<or>
          (k < Suc j' \<and> a_type (alien_array (game w) ! k) \<noteq> ALIEN_DEAD \<and>
           a_type (alien_array (game v) ! k) = ALIEN_DEAD \<and>
           (k = j \<or> (\<exists>m. i < m \<and> m < unat (num_rockets (game w)) \<and>
                         rocket_hits w (rockets (game w) ! m) (alien_array (game w) ! k))))"
    using assms(1) unfolding scan_inv_def by (meson less_Suc_eq)
  have 6: "(if Suc j' \<le> j then game v = game w
       else a_type (alien_array (game v) ! j) = ALIEN_DEAD \<and>
            unat (num_rockets (game v)) < unat (num_rockets (game w)) \<and>
            (if i < unat (num_rockets (game v))
             then rockets (game v) ! i = rockets (game w) ! unat (num_rockets (game v))
             else \<exists>k0<Suc j'. a_type (alien_array (game w) ! k0) \<noteq> ALIEN_DEAD \<and>
                    rocket_hits w (rockets (game v) ! i) (alien_array (game w) ! k0)))"
  proof (cases "j' \<le> j")
    case True
    with assms(2) have "Suc j' \<le> j" by simp
    moreover from True assms(1) have "game v = game w" by (simp add: scan_inv_def)
    ultimately show ?thesis by simp
  next
    case False
    then have n: "\<not> Suc j' \<le> j" by simp
    from False assms(1) have d: "a_type (alien_array (game v) ! j) = ALIEN_DEAD"
      "unat (num_rockets (game v)) < unat (num_rockets (game w))"
      and c: "if i < unat (num_rockets (game v))
             then rockets (game v) ! i = rockets (game w) ! unat (num_rockets (game v))
             else \<exists>k0<j'. a_type (alien_array (game w) ! k0) \<noteq> ALIEN_DEAD \<and>
                    rocket_hits w (rockets (game v) ! i) (alien_array (game w) ! k0)"
      by (simp_all add: scan_inv_def)
    from c have "if i < unat (num_rockets (game v))
             then rockets (game v) ! i = rockets (game w) ! unat (num_rockets (game v))
             else \<exists>k0<Suc j'. a_type (alien_array (game w) ! k0) \<noteq> ALIEN_DEAD \<and>
                    rocket_hits w (rockets (game v) ! i) (alien_array (game w) ! k0)"
      by (auto split: if_splits intro: less_SucI)
    with n d show ?thesis by simp
  qed
  from assms(1) 5 6 show ?thesis
    unfolding scan_inv_def by blast
qed


lemma scan_step:
  assumes inv: "game_inv w" and i: "i < unat (num_rockets (game w))" and j: "j < 50"
    and alive_j: "a_type (alien_array (game w) ! j) \<noteq> ALIEN_DEAD"
    and hit_j: "rocket_hits w (rockets (game w) ! i) (alien_array (game w) ! j)"
    and first: "\<forall>q<j. a_type (alien_array (game w) ! q) \<noteq> ALIEN_DEAD \<longrightarrow>
                  \<not> rocket_hits w (rockets (game w) ! i) (alien_array (game w) ! q)"
    and s: "scan_inv w i j j' v" and j': "j' < 50"
  shows "\<exists>v'. check_alien i j' v = Inr v' \<and> scan_inv w i j (Suc j') v'"
proof -
  let ?A = "alien_array (game w)" and ?R = "rockets (game w)"
  let ?n = "unat (num_rockets (game w))" and ?nv = "unat (num_rockets (game v))"
  let ?a = "alien_array (game v) ! j'" and ?rho = "rockets (game v) ! i"
  from s have an: "alien_animation v = alien_animation w"
    and hs: "alien_hoard_size (game v) = 50"
    and len: "length (alien_array (game v)) = 50" "length (rockets (game v)) = 128"
    and fr: "\<forall>m. m \<noteq> i \<longrightarrow> rockets (game v) ! m = ?R ! m"
    and lo: "i \<le> ?nv" and hi: "?nv \<le> ?n"
    and al: "\<forall>k<50. alien_array (game v) ! k = ?A ! k \<or>
          (k < j' \<and> a_type (?A ! k) \<noteq> ALIEN_DEAD \<and>
           a_type (alien_array (game v) ! k) = ALIEN_DEAD \<and>
           (k = j \<or> (\<exists>m. i < m \<and> m < ?n \<and> rocket_hits w (?R ! m) (?A ! k))))"
    and sl: "if j' \<le> j then game v = game w
       else a_type (alien_array (game v) ! j) = ALIEN_DEAD \<and> ?nv < ?n \<and>
            (if i < ?nv then ?rho = ?R ! ?nv
             else \<exists>k0<j'. a_type (?A ! k0) \<noteq> ALIEN_DEAD \<and> rocket_hits w ?rho (?A ! k0))"
    unfolding scan_inv_def by blast+
  from inv have ok: "animations_ok (alien_animation w)"
    and nmax: "?n \<le> 128"
    and form: "\<And>k. k < 50 \<Longrightarrow> a_type (?A ! k) \<noteq> ALIEN_DEAD \<Longrightarrow> ?A ! k = formation_alien k"
    by (simp_all add: game_inv_def list_all_iff GAME_MAX_ROCKETS_def)
  have okv: "animations_ok (alien_animation v)" using ok an by simp
  have i128: "i < 128" using i nmax by simp
  have before: "game v = game w" if "j' \<le> j" using sl that by simp
  show ?thesis
  proof (cases "a_type ?a = ALIEN_DEAD")
    case True
    have "j' \<noteq> j"
    proof
      assume "j' = j"
      with before have "?a = ?A ! j" by simp
      with True alive_j show False by simp
    qed
    with s have "scan_inv w i j (Suc j') v" by (rule scan_inv_advance)
    moreover have "check_alien i j' v = Inr v"
      using j' len True by (intro check_alien_dead) simp_all
    ultimately show ?thesis by blast
  next
    case False
    with al j' have same: "?a = ?A ! j'" by blast
    with False have alive_w: "a_type (?A ! j') \<noteq> ALIEN_DEAD" by simp
    then have fa: "?A ! j' = formation_alien j'" using form j' by simp
    have ty: "a_type ?a = 1 \<or> a_type ?a = 2"
      using formation_type[of j'] same fa by simp
    show ?thesis
    proof (cases "rocket_hits v ?rho ?a")
      case miss: False
      have "j' \<noteq> j"
      proof
        assume e: "j' = j"
        with before have "game v = game w" by simp
        with e hit_j an have "rocket_hits v ?rho ?a"
          by (simp add: rocket_hits_animation[OF an])
        with miss show False by simp
      qed
      with s have "scan_inv w i j (Suc j') v" by (rule scan_inv_advance)
      moreover have "check_alien i j' v = Inr v"
        using j' len i128 okv ty miss by (intro check_alien_miss) simp_all
      ultimately show ?thesis by blast
    next
      case hit: True
      then have hitw: "rocket_hits w ?rho (?A ! j')"
        using an same by (simp add: rocket_hits_animation[OF an])
      have notbefore: "j \<le> j'"
      proof (rule ccontr)
        assume "\<not> j \<le> j'"
        then have lt: "j' < j" by simp
        then have "game v = game w" using before by simp
        with hitw have "rocket_hits w (?R ! i) (?A ! j')" by simp
        with first lt alive_w show False by blast
      qed
      have live: "i < ?nv"
      proof (cases "j' \<le> j")
        case True
        then have "game v = game w" by (rule before)
        with i show ?thesis by simp
      next
        case False
        show ?thesis
        proof (rule ccontr)
          assume "\<not> i < ?nv"
          with sl False obtain k0 where k0: "k0 < j'" "a_type (?A ! k0) \<noteq> ALIEN_DEAD"
            "rocket_hits w ?rho (?A ! k0)" by auto
          from k0(1) j' have "k0 < 50" by simp
          with k0(2) have "?A ! k0 = formation_alien k0" using form by simp
          with k0(3) hitw fa have "k0 = j'"
            using one_alien_in_reach[OF ok \<open>k0 < 50\<close> j'] by simp
          with k0(1) show False by simp
        qed
      qed
      then have nz: "num_rockets (game v) \<noteq> 0"
        by (auto simp: unat_eq_0[symmetric] simp del: unat_eq_0)
      have cap: "?nv \<le> length (rockets (game v))"
        using hi nmax len by simp
      from check_alien_hit[OF _ _ okv ty hit nz cap] j' len i128
      obtain a' sc kl where a': "a_type a' = ALIEN_DEAD"
        and c: "check_alien i j' v = Inr (v\<lparr>score := sc, aliens_killed := kl,
           game := (game v)\<lparr>alien_array := (alien_array (game v))[j' := a'],
                            rockets := (rockets (game v))[i := rockets (game v) ! (?nv - 1)],
                            num_rockets := num_rockets (game v) - 1\<rparr>\<rparr>)"
        by auto
      define v' where "v' = v\<lparr>score := sc, aliens_killed := kl,
           game := (game v)\<lparr>alien_array := (alien_array (game v))[j' := a'],
                            rockets := (rockets (game v))[i := rockets (game v) ! (?nv - 1)],
                            num_rockets := num_rockets (game v) - 1\<rparr>\<rparr>"
      have nv': "unat (num_rockets (game v')) = ?nv - 1"
        using nz by (simp add: v'_def unat_minus_one)
      have A': "alien_array (game v') = (alien_array (game v))[j' := a']"
        and R': "rockets (game v') = (rockets (game v))[i := rockets (game v) ! (?nv - 1)]"
        by (simp_all add: v'_def)
      have slot: "rockets (game v') ! i = rockets (game v) ! (?nv - 1)"
        using R' len i128 by simp
      have killer: "j' = j \<or> (\<exists>m. i < m \<and> m < ?n \<and> rocket_hits w (?R ! m) (?A ! j'))"
      proof (cases "j' \<le> j")
        case True
        with notbefore show ?thesis by simp
      next
        case False
        with sl live have "?nv < ?n" "?rho = ?R ! ?nv" by simp_all
        with hitw live show ?thesis by auto
      qed
      have c5: "\<forall>k<50. alien_array (game v') ! k = ?A ! k \<or>
          (k < Suc j' \<and> a_type (?A ! k) \<noteq> ALIEN_DEAD \<and>
           a_type (alien_array (game v') ! k) = ALIEN_DEAD \<and>
           (k = j \<or> (\<exists>m. i < m \<and> m < ?n \<and> rocket_hits w (?R ! m) (?A ! k))))"
      proof (intro allI impI)
        fix k :: nat assume k: "k < 50"
        show "alien_array (game v') ! k = ?A ! k \<or>
          (k < Suc j' \<and> a_type (?A ! k) \<noteq> ALIEN_DEAD \<and>
           a_type (alien_array (game v') ! k) = ALIEN_DEAD \<and>
           (k = j \<or> (\<exists>m. i < m \<and> m < ?n \<and> rocket_hits w (?R ! m) (?A ! k))))"
        proof (cases "k = j'")
          case True
          then have "alien_array (game v') ! k = a'" using A' len j' by simp
          with True a' alive_w killer show ?thesis by auto
        next
          case False
          then have "alien_array (game v') ! k = alien_array (game v) ! k" using A' by simp
          with al k show ?thesis by (metis less_Suc_eq)
        qed
      qed
      have dead_j: "a_type (alien_array (game v') ! j) = ALIEN_DEAD"
      proof (cases "j' = j")
        case True
        then show ?thesis using A' len j' a' by simp
      next
        case False
        with notbefore have "\<not> j' \<le> j" by simp
        with sl have "a_type (alien_array (game v) ! j) = ALIEN_DEAD" by simp
        with False show ?thesis using A' by simp
      qed
      have c6: "if i < unat (num_rockets (game v'))
             then rockets (game v') ! i = ?R ! unat (num_rockets (game v'))
             else \<exists>k0<Suc j'. a_type (?A ! k0) \<noteq> ALIEN_DEAD \<and>
                    rocket_hits w (rockets (game v') ! i) (?A ! k0)"
      proof (cases "i < ?nv - 1")
        case True
        then have "?nv - 1 \<noteq> i" by simp
        with fr have "rockets (game v) ! (?nv - 1) = ?R ! (?nv - 1)" by blast
        with True slot nv' show ?thesis by simp
      next
        case False
        with live have "?nv - 1 = i" by simp
        with slot have "rockets (game v') ! i = ?rho" by simp
        with hitw alive_w False nv' show ?thesis by auto
      qed
      have "scan_inv w i j (Suc j') v'"
        unfolding scan_inv_def
      proof (intro conjI)
        show "alien_animation v' = alien_animation w" using an by (simp add: v'_def)
        show "alien_hoard_size (game v') = 50" using hs by (simp add: v'_def)
        show "length (alien_array (game v')) = 50" using len A' by simp
        show "length (rockets (game v')) = 128" using len R' by simp
        show "\<forall>m. m \<noteq> i \<longrightarrow> rockets (game v') ! m = ?R ! m" using fr R' by simp
        show "i \<le> unat (num_rockets (game v'))" using live nv' by simp
        show "unat (num_rockets (game v')) \<le> ?n" using hi nv' by simp
        show "\<forall>k<50. alien_array (game v') ! k = ?A ! k \<or>
          (k < Suc j' \<and> a_type (?A ! k) \<noteq> ALIEN_DEAD \<and>
           a_type (alien_array (game v') ! k) = ALIEN_DEAD \<and>
           (k = j \<or> (\<exists>m. i < m \<and> m < ?n \<and> rocket_hits w (?R ! m) (?A ! k))))"
          by (rule c5)
        show "if Suc j' \<le> j then game v' = game w
          else a_type (alien_array (game v') ! j) = ALIEN_DEAD \<and>
            unat (num_rockets (game v')) < ?n \<and>
            (if i < unat (num_rockets (game v'))
             then rockets (game v') ! i = ?R ! unat (num_rockets (game v'))
             else \<exists>k0<Suc j'. a_type (?A ! k0) \<noteq> ALIEN_DEAD \<and>
                    rocket_hits w (rockets (game v') ! i) (?A ! k0))"
        proof -
          have "\<not> Suc j' \<le> j" using notbefore by simp
          moreover have "unat (num_rockets (game v')) < ?n" using live hi nv' by linarith
          ultimately show ?thesis using dead_j c6 by presburger
        qed
      qed
      with c show ?thesis unfolding v'_def by blast
    qed
  qed
qed


text \<open>
  Claim C1.  In every state of the loop invariant, when the alien loop runs for a live
  rocket slot \<open>i\<close> and \<open>j\<close> is the first alien in scan order that is not dead and that
  the rocket of slot \<open>i\<close> overlaps, then the loop ends normally, alien \<open>j\<close> is dead
  afterwards, and \<open>j\<close> is the only alien this rocket kills: it overlaps no other living
  alien, and any other alien that dies while the loop runs on overlaps another rocket of
  the pool, one that stood behind slot \<open>i\<close> and was copied into the slot by the removal.
  (The loop does not stop at the hit; it is the spacing of the formation that keeps a
  rocket from reaching two aliens.)
\<close>

theorem one_alien_per_rocket:
  assumes "game_inv w" and "i < unat (num_rockets (game w))" and "j < 50"
    and "a_type (alien_array (game w) ! j) \<noteq> ALIEN_DEAD"
    and "rocket_hits w (rockets (game w) ! i) (alien_array (game w) ! j)"
    and "\<forall>q<j. a_type (alien_array (game w) ! q) \<noteq> ALIEN_DEAD \<longrightarrow>
                  \<not> rocket_hits w (rockets (game w) ! i) (alien_array (game w) ! q)"
  shows "\<exists>w'. check_aliens i w = Inr w' \<and>
     a_type (alien_array (game w') ! j) = ALIEN_DEAD \<and>
     (\<forall>k<50. k \<noteq> j \<and> a_type (alien_array (game w) ! k) \<noteq> ALIEN_DEAD \<longrightarrow>
         \<not> rocket_hits w (rockets (game w) ! i) (alien_array (game w) ! k)) \<and>
     (\<forall>k<50. k \<noteq> j \<and> a_type (alien_array (game w) ! k) \<noteq> ALIEN_DEAD \<and>
         a_type (alien_array (game w') ! k) = ALIEN_DEAD \<longrightarrow>
         (\<exists>m. i < m \<and> m < unat (num_rockets (game w)) \<and>
              rocket_hits w (rockets (game w) ! m) (alien_array (game w) ! k)))"
proof -
  have "\<exists>w'. for_each (check_alien i) [0..<50] w = Inr w' \<and> scan_inv w i j 50 w'"
  proof (rule for_each_total[where P = "scan_inv w i j"])
    show "scan_inv w i j 0 w" using assms(1,2) by (rule scan_inv_start)
  next
    fix j' v assume "j' < 50" "scan_inv w i j j' v"
    with assms show "\<exists>v'. check_alien i j' v = Inr v' \<and> scan_inv w i j (Suc j') v'"
      by (intro scan_step)
  qed
  then obtain w' where w': "check_aliens i w = Inr w'" and s: "scan_inv w i j 50 w'"
    using assms(1) by (auto simp: check_aliens_def game_inv_def)
  from s assms(3) have dead: "a_type (alien_array (game w') ! j) = ALIEN_DEAD"
    by (simp add: scan_inv_def)
  from s have al: "\<forall>k<50. alien_array (game w') ! k = alien_array (game w) ! k \<or>
          (k < 50 \<and> a_type (alien_array (game w) ! k) \<noteq> ALIEN_DEAD \<and>
           a_type (alien_array (game w') ! k) = ALIEN_DEAD \<and>
           (k = j \<or> (\<exists>m. i < m \<and> m < unat (num_rockets (game w)) \<and>
                         rocket_hits w (rockets (game w) ! m) (alien_array (game w) ! k))))"
    unfolding scan_inv_def by blast
  from assms(1) have ok: "animations_ok (alien_animation w)"
    and form: "\<And>k. k < 50 \<Longrightarrow> a_type (alien_array (game w) ! k) \<noteq> ALIEN_DEAD \<Longrightarrow>
                 alien_array (game w) ! k = formation_alien k"
    by (simp_all add: game_inv_def list_all_iff)
  have alone: "\<not> rocket_hits w (rockets (game w) ! i) (alien_array (game w) ! k)"
    if "k < 50" "k \<noteq> j" "a_type (alien_array (game w) ! k) \<noteq> ALIEN_DEAD" for k
  proof
    assume "rocket_hits w (rockets (game w) ! i) (alien_array (game w) ! k)"
    with assms(5) form[OF that(1,3)] form[OF assms(3,4)]
    have "k = j" using one_alien_in_reach[OF ok that(1) assms(3)] by simp
    with that(2) show False by simp
  qed
  have others: "\<exists>m. i < m \<and> m < unat (num_rockets (game w)) \<and>
              rocket_hits w (rockets (game w) ! m) (alien_array (game w) ! k)"
    if "k < 50" "k \<noteq> j" "a_type (alien_array (game w) ! k) \<noteq> ALIEN_DEAD"
      "a_type (alien_array (game w') ! k) = ALIEN_DEAD" for k
    using al[rule_format, OF that(1)] that(2,3,4) by auto
  from w' dead alone others show ?thesis by blast
qed

lemma striking_world_aim:
  "rocket_hits striking_world (rockets (game striking_world) ! 0)
     (alien_array (game striking_world) ! 5)"
  "list_all (\<lambda>q. \<not> rocket_hits striking_world (rockets (game striking_world) ! 0)
     (alien_array (game striking_world) ! q)) [0..<5]"
  by code_simp+

theorem one_alien_per_rocket_witness:
  "game_inv striking_world \<and>
   rocket_hits striking_world (rockets (game striking_world) ! 0)
     (alien_array (game striking_world) ! 5) \<and>
   (case check_aliens 0 striking_world of
      Inl e \<Rightarrow> False
    | Inr w' \<Rightarrow> a_type (alien_array (game w') ! 5) = ALIEN_DEAD)"
proof -
  note f = striking_world_facts
  have alive: "a_type (alien_array (game striking_world) ! 5) \<noteq> ALIEN_DEAD"
    using f(2) by (simp add: ALIEN_DEAD_def)
  have i: "0 < unat (num_rockets (game striking_world))"
    using f(8) by simp
  have first: "\<forall>q<5. a_type (alien_array (game striking_world) ! q) \<noteq> ALIEN_DEAD \<longrightarrow>
      \<not> rocket_hits striking_world (rockets (game striking_world) ! 0)
          (alien_array (game striking_world) ! q)"
    using striking_world_aim(2) by (simp add: list_all_iff)
  from one_alien_per_rocket[OF f(1) i _ alive striking_world_aim(1) first]
  obtain w' where "check_aliens 0 striking_world = Inr w'"
    "a_type (alien_array (game w') ! 5) = ALIEN_DEAD"
    by auto
  with f(1) striking_world_aim(1) show ?thesis by simp
qed


end
